theory Spec2Isabelle
  imports Main "HOL-Library.Word"
begin

section \<open>Entry Reusage System (src/common/ers.c)\<close>

text \<open>
  A shallow embedding of the pool allocator of \<^verbatim>\<open>ers.c\<close>. Addresses are natural
  numbers and \<^verbatim>\<open>NULL\<close> is address 0. The C memory is split by type, one component
  per kind of object that the file reads or writes:
  \<^item> \<open>objs\<close>: the live \<^verbatim>\<open>struct ers\<close> records, by address;
  \<^item> \<open>ll_next\<close>: the \<^verbatim>\<open>next\<close> field of the \<^verbatim>\<open>struct ers_ll\<close> that overlays the first
    bytes of an entry, by the entry's address;
  \<^item> \<open>allocated\<close>: the allocations made through \<^verbatim>\<open>malloc.h\<close> that are still live;
  \<^item> \<open>ers_root\<close>, \<open>ers_num\<close>: the two static variables of the file.
  The array of block pointers belongs to one manager only, so its cells are kept inside
  the manager's record (\<open>blocks\<close>) beside its base address (\<open>blocks_ptr\<close>).
  The 32-bit unsigned fields and counters are \<open>32 word\<close>; the index of a
  \<^verbatim>\<open>for (i = 0; i < n; i++)\<close> loop never wraps and is a \<open>nat\<close>.
\<close>

type_synonym uint32 = "32 word"
type_synonym ptr = nat

abbreviation NULL :: ptr where "NULL \<equiv> 0"

definition ERS_BLOCK_ENTRIES :: uint32 where
  "ERS_BLOCK_ENTRIES = 4096"

definition ERS_ROOT_SIZE :: uint32 where
  "ERS_ROOT_SIZE = 256"

definition UINT32_MAX :: uint32 where
  "UINT32_MAX = 4294967295"

text \<open>
  \<open>Exit\<close> is \<^verbatim>\<open>exit(EXIT_FAILURE)\<close> after \<^verbatim>\<open>ShowFatalError\<close>. \<open>Undefined\<close> is
  undefined behaviour of the C program: a read through a dangling or null manager
  pointer, an array index out of range, a remainder by zero. \<open>NoMemory\<close> is the
  allocator handing back \<^verbatim>\<open>NULL\<close>; what the wrappers of \<^verbatim>\<open>malloc.h\<close> do then is not
  part of these sources.
\<close>

datatype error = Exit | Undefined | NoMemory

record ers =
  reuse :: ptr
  blocks_ptr :: ptr
  blocks :: "ptr list"
  free :: uint32
  num :: uint32
  max_ers :: uint32
  destroy :: uint32
  size_ers :: uint32

datatype allocation = Manager | BlockArray uint32 | Block uint32

record ers_state =
  objs :: "ptr \<rightharpoonup> ers"
  ll_next :: "ptr \<Rightarrow> ptr"
  allocated :: "ptr \<rightharpoonup> allocation"
  ers_root :: "ptr list"
  ers_num :: uint32

subsection \<open>The allocator of malloc.h\<close>

text \<open>
  Modelled from the spec: the macros \<^verbatim>\<open>aMalloc\<close>, \<^verbatim>\<open>CREATE\<close>, \<^verbatim>\<open>RECREATE\<close> and \<^verbatim>\<open>aFree\<close>
  of \<^verbatim>\<open>common/malloc.h\<close> are not among the sources. The address an allocation returns
  is an argument of the operation that allocates; the functions below only keep the
  book of live allocations. \<open>RECREATE_cells\<close> is the content of a reallocated array:
  the old cells up to the new length, then cells that the program never reads before
  it writes them.
\<close>

definition aMalloc :: "ptr \<Rightarrow> allocation \<Rightarrow> (ptr \<rightharpoonup> allocation) \<Rightarrow> (ptr \<rightharpoonup> allocation)" where
  "aMalloc p a m = m(p \<mapsto> a)"

definition aFree :: "ptr \<Rightarrow> (ptr \<rightharpoonup> allocation) \<Rightarrow> (ptr \<rightharpoonup> allocation)" where
  "aFree p m = m(p := None)"

definition RECREATE_cells :: "ptr list \<Rightarrow> nat \<Rightarrow> ptr list" where
  "RECREATE_cells xs n = take n xs @ replicate (n - length xs) NULL"

definition RECREATE :: "ptr \<Rightarrow> ptr \<Rightarrow> allocation \<Rightarrow> (ptr \<rightharpoonup> allocation) \<Rightarrow> (ptr \<rightharpoonup> allocation)" where
  "RECREATE old q a m = aMalloc q a (aFree old m)"

subsection \<open>Protected functions\<close>

text \<open>
  The block array is expanded when it is full (lines 214 to 222): \<open>q\<close> is the address
  \<^verbatim>\<open>RECREATE\<close> returns.
\<close>

definition expand_blocks ::
  "ptr \<Rightarrow> ers \<Rightarrow> (ptr \<rightharpoonup> allocation) \<Rightarrow> error + (ers \<times> (ptr \<rightharpoonup> allocation))" where
  "expand_blocks q obj m =
     (if num obj = max_ers obj then
        (if max_ers obj = UINT32_MAX then Inl Exit
         else
           let mx = push_bit 2 (max_ers obj) + 3 in
           if q = NULL then Inl NoMemory
           else Inr (obj\<lparr>max_ers := mx, blocks_ptr := q,
                         blocks := RECREATE_cells (blocks obj) (unat mx)\<rparr>,
                     RECREATE (blocks_ptr obj) q (BlockArray mx) m))
      else Inr (obj, m))"

text \<open>
  \<^verbatim>\<open>ers_obj_alloc_entry\<close>: \<open>q\<close> and \<open>b\<close> are the addresses that \<^verbatim>\<open>RECREATE\<close> and
  \<^verbatim>\<open>CREATE\<close> return if the call reaches them. The result is the entry's address and
  the new state.
\<close>

definition ers_obj_alloc_entry ::
  "ptr \<Rightarrow> ptr \<Rightarrow> ptr \<Rightarrow> ers_state \<Rightarrow> error + (ptr \<times> ers_state)" where
  "ers_obj_alloc_entry q b self st =
     (if self = NULL then Inr (NULL, st)
      else case objs st self of
        None \<Rightarrow> Inl Undefined
      | Some obj \<Rightarrow>
          if reuse obj \<noteq> NULL then
            Inr (reuse obj,
                 st\<lparr>objs := (objs st)(self \<mapsto> obj\<lparr>reuse := ll_next st (reuse obj)\<rparr>)\<rparr>)
          else if free obj \<noteq> 0 then
            (let obj1 = obj\<lparr>free := free obj - 1\<rparr> in
             if length (blocks obj1) \<le> unat (num obj1 - 1) then Inl Undefined
             else Inr (blocks obj1 ! unat (num obj1 - 1) + unat (free obj1 * size_ers obj1),
                       st\<lparr>objs := (objs st)(self \<mapsto> obj1)\<rparr>))
          else
            (case expand_blocks q obj (allocated st) of
               Inl e \<Rightarrow> Inl e
             | Inr (obj1, m1) \<Rightarrow>
                 if b = NULL then Inl NoMemory
                 else if length (blocks obj1) \<le> unat (num obj1) then Inl Undefined
                 else
                   let obj2 = obj1\<lparr>blocks := (blocks obj1)[unat (num obj1) := b],
                                   free := ERS_BLOCK_ENTRIES - 1\<rparr>;
                       ret = b + unat (free obj2 * size_ers obj2);
                       obj3 = obj2\<lparr>num := num obj2 + 1\<rparr>
                   in Inr (ret,
                           st\<lparr>objs := (objs st)(self \<mapsto> obj3),
                              allocated :=
                                aMalloc b (Block (size_ers obj1 * ERS_BLOCK_ENTRIES)) m1\<rparr>)))"

text \<open>\<^verbatim>\<open>ers_obj_free_entry\<close>: the entry is pushed on the list of reusable entries.\<close>

definition ers_obj_free_entry :: "ptr \<Rightarrow> ptr \<Rightarrow> ers_state \<Rightarrow> error + ers_state" where
  "ers_obj_free_entry self entry st =
     (if self = NULL then Inr st
      else if entry = NULL then Inr st
      else case objs st self of
        None \<Rightarrow> Inl Undefined
      | Some obj \<Rightarrow>
          Inr (st\<lparr>ll_next := (ll_next st)(entry := reuse obj),
                  objs := (objs st)(self \<mapsto> obj\<lparr>reuse := entry\<rparr>)\<rparr>))"

text \<open>\<^verbatim>\<open>ers_obj_entry_size\<close>: a query; 0 for a null manager.\<close>

definition ers_obj_entry_size :: "ptr \<Rightarrow> ers_state \<Rightarrow> error + uint32" where
  "ers_obj_entry_size self st =
     (if self = NULL then Inr 0
      else case objs st self of
        None \<Rightarrow> Inl Undefined
      | Some obj \<Rightarrow> Inr (size_ers obj))"

subsection \<open>Public functions\<close>

text \<open>
  The size an entry manager really uses (lines 391 to 394). \<open>lk\<close> is
  \<^verbatim>\<open>sizeof(struct ers_ll)\<close> and \<open>al\<close> is \<^verbatim>\<open>ERS_ALIGNED\<close>, a constant of \<^verbatim>\<open>ers.h\<close>, which is
  not among the sources: both are parameters.
\<close>

definition aligned_size :: "uint32 \<Rightarrow> uint32 \<Rightarrow> uint32 \<Rightarrow> uint32" where
  "aligned_size al lk sz =
     (let s1 = (if sz < lk then lk else sz) in
      if s1 mod al \<noteq> 0 then s1 + (al - s1 mod al) else s1)"

text \<open>
  The size as the specification words it, on unbounded numbers: the request raised to
  the size of a link, then rounded up to the next multiple of the alignment.
\<close>

definition spec_entry_size :: "nat \<Rightarrow> nat \<Rightarrow> nat \<Rightarrow> nat" where
  "spec_entry_size al lk sz = (max sz lk + al - 1) div al * al"

text \<open>
  The search of \<^verbatim>\<open>ers_new\<close> through the root array, from index \<open>i\<close> on: the first
  manager that handles the size.
\<close>

function ers_new_lookup :: "uint32 \<Rightarrow> nat \<Rightarrow> ers_state \<Rightarrow> error + ptr option" where
  "ers_new_lookup sz i st =
     (if i < unat (ers_num st) then
        (if length (ers_root st) \<le> i then Inl Undefined
         else case objs st (ers_root st ! i) of
           None \<Rightarrow> Inl Undefined
         | Some obj \<Rightarrow>
             if size_ers obj = sz then Inr (Some (ers_root st ! i))
             else ers_new_lookup sz (Suc i) st)
      else Inr None)"
  by pat_completeness auto
termination
  by (relation "measure (\<lambda>(sz, i, st). unat (ers_num st) - i)") auto

declare ers_new_lookup.simps [simp del]

text \<open>\<^verbatim>\<open>ers_new\<close>: \<open>p\<close> is the address \<^verbatim>\<open>aMalloc\<close> returns if a manager is created.\<close>

definition ers_new ::
  "uint32 \<Rightarrow> uint32 \<Rightarrow> uint32 \<Rightarrow> ptr \<Rightarrow> ers_state \<Rightarrow> error + (ptr \<times> ers_state)" where
  "ers_new al lk sz0 p st =
     (if sz0 = 0 then Inr (NULL, st)
      else if al = 0 then Inl Undefined
      else
        let sz = aligned_size al lk sz0 in
        case ers_new_lookup sz 0 st of
          Inl e \<Rightarrow> Inl e
        | Inr (Some h) \<Rightarrow>
            (case objs st h of
               None \<Rightarrow> Inl Undefined
             | Some obj \<Rightarrow>
                 Inr (h, st\<lparr>objs := (objs st)(h \<mapsto> obj\<lparr>destroy := destroy obj + 1\<rparr>)\<rparr>))
        | Inr None \<Rightarrow>
            if ers_num st = ERS_ROOT_SIZE then Inl Exit
            else if p = NULL then Inl NoMemory
            else if length (ers_root st) \<le> unat (ers_num st) then Inl Undefined
            else
              Inr (p,
                   st\<lparr>objs := (objs st)(p \<mapsto>
                          \<lparr>reuse = NULL, blocks_ptr = NULL, blocks = [], free = 0, num = 0,
                           max_ers = 0, destroy = 1, size_ers = sz\<rparr>),
                      allocated := aMalloc p Manager (allocated st),
                      ers_root := (ers_root st)[unat (ers_num st) := p],
                      ers_num := ers_num st + 1\<rparr>))"

subsection \<open>Destruction of an instance\<close>

text \<open>
  The manager is taken out of the root array (lines 309 to 316): the search starts at
  index \<open>i\<close>, and the last manager moves to the slot that becomes free.
\<close>

function root_remove :: "ptr \<Rightarrow> nat \<Rightarrow> ers_state \<Rightarrow> error + ers_state" where
  "root_remove obj i st =
     (if i < unat (ers_num st) then
        (if length (ers_root st) \<le> i then Inl Undefined
         else if ers_root st ! i = obj then
           (let n = ers_num st - 1 in
            if i < unat n then
              (if length (ers_root st) \<le> unat n then Inl Undefined
               else Inr (st\<lparr>ers_num := n,
                            ers_root := (ers_root st)[i := ers_root st ! unat n]\<rparr>))
            else Inr (st\<lparr>ers_num := n\<rparr>))
         else root_remove obj (Suc i) st)
      else Inr st)"
  by pat_completeness auto
termination
  by (relation "measure (\<lambda>(obj, i, st). unat (ers_num st) - i)") auto

declare root_remove.simps [simp del]

text \<open>
  The check for missing and extra entries (lines 317 to 346). \<open>destroy_consume\<close> is
  \<^verbatim>\<open>while (reuse && count)\<close>, \<open>count_extra\<close> is
  \<^verbatim>\<open>while (reuse && count != UINT32_MAX)\<close>, \<open>destroy_count\<close> is the loop over the
  blocks. The result of the check is the warning that is shown, if any.
\<close>

function destroy_consume :: "(ptr \<Rightarrow> ptr) \<Rightarrow> ptr \<Rightarrow> uint32 \<Rightarrow> ptr \<times> uint32" where
  "destroy_consume nx r c =
     (if r \<noteq> NULL \<and> c \<noteq> 0 then destroy_consume nx (nx r) (c - 1) else (r, c))"
  by pat_completeness auto
termination
  by (relation "measure (\<lambda>(nx, r, c). unat c)") (auto simp: measure_unat)

declare destroy_consume.simps [simp del]

function count_extra :: "(ptr \<Rightarrow> ptr) \<Rightarrow> ptr \<Rightarrow> uint32 \<Rightarrow> ptr \<times> uint32" where
  "count_extra nx r c =
     (if r \<noteq> NULL \<and> c \<noteq> UINT32_MAX then count_extra nx (nx r) (c + 1) else (r, c))"
  by pat_completeness auto
termination
proof (relation "measure (\<lambda>(nx, r, c). 4294967295 - unat c)")
  show "wf (measure (\<lambda>(nx, r, c). 4294967295 - unat c))"
    by simp
next
  fix nx :: "ptr \<Rightarrow> ptr" and r :: ptr and c :: uint32
  assume "r \<noteq> NULL \<and> c \<noteq> UINT32_MAX"
  then have ne: "c \<noteq> 4294967295"
    by (simp add: UINT32_MAX_def)
  have m1: "(- 1 :: uint32) = 4294967295"
    by simp
  from ne have "c \<noteq> - 1"
    unfolding m1 .
  then have "c + 1 \<noteq> 0"
    using max_word_wrap [of c] by blast
  then have "1 + c \<noteq> 0"
    by (metis add.commute)
  then have "unat (1 + c) = Suc (unat c)"
    by (rule unatSuc)
  then have s: "unat (c + 1) = Suc (unat c)"
    by (metis add.commute)
  have "unat (c + 1) < 2 ^ 32"
    using unsigned_less [of "c + 1", where 'a = nat] by simp
  with s show "((nx, nx r, c + 1), (nx, r, c)) \<in> measure (\<lambda>(nx, r, c). 4294967295 - unat c)"
    by simp
qed

declare count_extra.simps [simp del]

function destroy_count :: "(ptr \<Rightarrow> ptr) \<Rightarrow> ers \<Rightarrow> nat \<Rightarrow> ptr \<Rightarrow> uint32 \<Rightarrow> ptr \<times> uint32" where
  "destroy_count nx obj i r c =
     (if i < unat (num obj) then
        (if i = 0 then
           destroy_count nx obj (Suc i)
             (fst (destroy_consume nx r (ERS_BLOCK_ENTRIES - free obj)))
             (snd (destroy_consume nx r (ERS_BLOCK_ENTRIES - free obj)))
         else if c > UINT32_MAX - ERS_BLOCK_ENTRIES then (r, UINT32_MAX)
         else
           destroy_count nx obj (Suc i)
             (fst (destroy_consume nx r (c + ERS_BLOCK_ENTRIES)))
             (snd (destroy_consume nx r (c + ERS_BLOCK_ENTRIES))))
      else (r, c))"
  by pat_completeness auto
termination
  by (relation "measure (\<lambda>(nx, obj, i, r, c). unat (num obj) - i)") auto

declare destroy_count.simps [simp del]

datatype warning = Missing uint32 uint32 | Extra uint32 uint32

definition destroy_check :: "(ptr \<Rightarrow> ptr) \<Rightarrow> ers \<Rightarrow> warning option" where
  "destroy_check nx obj =
     (let rc = destroy_count nx obj 0 (reuse obj) 0 in
      if snd rc \<noteq> 0 then Some (Missing (snd rc) (size_ers obj))
      else if fst rc \<noteq> NULL then
        Some (Extra (snd (count_extra nx (fst rc) (snd rc))) (size_ers obj))
      else None)"

text \<open>
  The release of the memory of a manager: the blocks, the array of blocks, the
  manager (lines 348 to 353, and again lines 522 to 527).
\<close>

function free_blocks ::
  "ers \<Rightarrow> nat \<Rightarrow> (ptr \<rightharpoonup> allocation) \<Rightarrow> error + (ptr \<rightharpoonup> allocation)" where
  "free_blocks obj i m =
     (if i < unat (num obj) then
        (if length (blocks obj) \<le> i then Inl Undefined
         else free_blocks obj (Suc i) (aFree (blocks obj ! i) m))
      else Inr m)"
  by pat_completeness auto
termination
  by (relation "measure (\<lambda>(obj, i, m). unat (num obj) - i)") auto

declare free_blocks.simps [simp del]

definition release_manager ::
  "ptr \<Rightarrow> ers \<Rightarrow> (ptr \<rightharpoonup> allocation) \<Rightarrow> error + (ptr \<rightharpoonup> allocation)" where
  "release_manager self obj m =
     (if max_ers obj \<noteq> 0 then
        (case free_blocks obj 0 m of
           Inl e \<Rightarrow> Inl e
         | Inr m1 \<Rightarrow> Inr (aFree self (aFree (blocks_ptr obj) m1)))
      else Inr (aFree self m))"

text \<open>\<^verbatim>\<open>ers_obj_destroy\<close>: the result is the warning shown, if any, and the new state.\<close>

definition ers_obj_destroy :: "ptr \<Rightarrow> ers_state \<Rightarrow> error + (warning option \<times> ers_state)" where
  "ers_obj_destroy self st =
     (if self = NULL then Inr (None, st)
      else case objs st self of
        None \<Rightarrow> Inl Undefined
      | Some obj0 \<Rightarrow>
          let obj = obj0\<lparr>destroy := destroy obj0 - 1\<rparr> in
          if destroy obj \<noteq> 0 then Inr (None, st\<lparr>objs := (objs st)(self \<mapsto> obj)\<rparr>)
          else
            (case root_remove self 0 st of
               Inl e \<Rightarrow> Inl e
             | Inr st1 \<Rightarrow>
                 (case release_manager self obj (allocated st1) of
                    Inl e \<Rightarrow> Inl e
                  | Inr m \<Rightarrow>
                      Inr (destroy_check (ll_next st1) obj,
                           st1\<lparr>objs := (objs st1)(self := None), allocated := m\<rparr>))))"

subsection \<open>The report\<close>

text \<open>
  \<open>report_consume\<close> is \<^verbatim>\<open>while (used && reuse)\<close>, \<open>report_rest\<close> is the inner
  \<^verbatim>\<open>for (; j < obj->num; j++)\<close>, \<open>report_count\<close> is the loop over the blocks of one
  manager (lines 459 to 480). The report is the text that is shown, as values.
\<close>

function report_consume ::
  "(ptr \<Rightarrow> ptr) \<Rightarrow> ptr \<Rightarrow> uint32 \<Rightarrow> uint32 \<Rightarrow> ptr \<times> uint32 \<times> uint32" where
  "report_consume nx r used reusable =
     (if used \<noteq> 0 \<and> r \<noteq> NULL then
        report_consume nx (nx r) (used - 1)
          (if reusable \<noteq> UINT32_MAX then reusable + 1 else reusable)
      else (r, used, reusable))"
  by pat_completeness auto
termination
  by (relation "measure (\<lambda>(nx, r, used, reusable). unat used)") (auto simp: measure_unat)

declare report_consume.simps [simp del]

function report_rest :: "ers \<Rightarrow> nat \<Rightarrow> uint32 \<Rightarrow> uint32" where
  "report_rest obj j used =
     (if j < unat (num obj) then
        (if used > UINT32_MAX - ERS_BLOCK_ENTRIES then UINT32_MAX
         else report_rest obj (Suc j) (used + ERS_BLOCK_ENTRIES))
      else used)"
  by pat_completeness auto
termination
  by (relation "measure (\<lambda>(obj, j, used). unat (num obj) - j)") auto

declare report_rest.simps [simp del]

function report_count ::
  "(ptr \<Rightarrow> ptr) \<Rightarrow> ers \<Rightarrow> nat \<Rightarrow> ptr \<Rightarrow> uint32 \<Rightarrow> uint32 \<Rightarrow> ptr \<times> uint32 \<times> uint32" where
  "report_count nx obj j r used reusable =
     (if j < unat (num obj) then
        (if j = 0 then
           report_count nx obj (Suc j)
             (fst (report_consume nx r (ERS_BLOCK_ENTRIES - free obj) reusable))
             (fst (snd (report_consume nx r (ERS_BLOCK_ENTRIES - free obj) reusable)))
             (snd (snd (report_consume nx r (ERS_BLOCK_ENTRIES - free obj) reusable)))
         else if r \<noteq> NULL then
           report_count nx obj (Suc j)
             (fst (report_consume nx r ERS_BLOCK_ENTRIES reusable))
             (fst (snd (report_consume nx r ERS_BLOCK_ENTRIES reusable)))
             (snd (snd (report_consume nx r ERS_BLOCK_ENTRIES reusable)))
         else (r, report_rest obj j used, reusable))
      else (r, used, reusable))"
  by pat_completeness auto
termination
  by (relation "measure (\<lambda>(nx, obj, j, r, used, reusable). unat (num obj) - j)") auto

declare report_count.simps [simp del]

record manager_report =
  instances :: uint32
  entry_size :: uint32
  block_array_size :: uint32
  allocated_blocks :: uint32
  entries_used :: uint32
  unused_entries :: uint32
  reusable_entries :: uint32
  extra_entries :: uint32

record report =
  root_array_size :: uint32
  root_entry_managers :: uint32
  entries_per_block :: uint32
  managers :: "manager_report list"

definition report_manager :: "(ptr \<Rightarrow> ptr) \<Rightarrow> ers \<Rightarrow> manager_report" where
  "report_manager nx obj =
     (let cnt = report_count nx obj 0 (reuse obj) 0 0 in
      \<lparr>instances = destroy obj, entry_size = size_ers obj, block_array_size = max_ers obj,
       allocated_blocks = num obj, entries_used = fst (snd cnt), unused_entries = free obj,
       reusable_entries = snd (snd cnt),
       extra_entries = snd (count_extra nx (fst cnt) 0)\<rparr>)"

function report_managers :: "nat \<Rightarrow> ers_state \<Rightarrow> error + manager_report list" where
  "report_managers i st =
     (if i < unat (ers_num st) then
        (if length (ers_root st) \<le> i then Inl Undefined
         else case objs st (ers_root st ! i) of
           None \<Rightarrow> Inl Undefined
         | Some obj \<Rightarrow>
             (case report_managers (Suc i) st of
                Inl e \<Rightarrow> Inl e
              | Inr rs \<Rightarrow> Inr (report_manager (ll_next st) obj # rs)))
      else Inr [])"
  by pat_completeness auto
termination
  by (relation "measure (\<lambda>(i, st). unat (ers_num st) - i)") auto

declare report_managers.simps [simp del]

text \<open>\<^verbatim>\<open>ers_report\<close>: the result is the report and the state after the call.\<close>

definition ers_report :: "ers_state \<Rightarrow> error + (report \<times> ers_state)" where
  "ers_report st =
     (case report_managers 0 st of
        Inl e \<Rightarrow> Inl e
      | Inr rs \<Rightarrow>
          Inr (\<lparr>root_array_size = ERS_ROOT_SIZE, root_entry_managers = ers_num st,
                entries_per_block = ERS_BLOCK_ENTRIES, managers = rs\<rparr>, st))"

subsection \<open>Forced destruction\<close>

function destroy_all_loop :: "nat \<Rightarrow> ers_state \<Rightarrow> error + ers_state" where
  "destroy_all_loop i st =
     (if i < unat (ers_num st) then
        (if length (ers_root st) \<le> i then Inl Undefined
         else case objs st (ers_root st ! i) of
           None \<Rightarrow> Inl Undefined
         | Some obj \<Rightarrow>
             (case release_manager (ers_root st ! i) obj (allocated st) of
                Inl e \<Rightarrow> Inl e
              | Inr m \<Rightarrow>
                  destroy_all_loop (Suc i)
                    (st\<lparr>objs := (objs st)(ers_root st ! i := None), allocated := m\<rparr>)))
      else Inr st)"
  by pat_completeness auto
termination
  by (relation "measure (\<lambda>(i, st). unat (ers_num st) - i)") auto

declare destroy_all_loop.simps [simp del]

definition ers_force_destroy_all :: "ers_state \<Rightarrow> error + ers_state" where
  "ers_force_destroy_all st =
     (case destroy_all_loop 0 st of
        Inl e \<Rightarrow> Inl e
      | Inr st1 \<Rightarrow> Inr (st1\<lparr>ers_num := 0\<rparr>))"

text \<open>The state of a process that has not called the system yet.\<close>

definition ers_initial :: ers_state where
  "ers_initial =
     \<lparr>objs = Map.empty, ll_next = (\<lambda>_. NULL), allocated = Map.empty,
      ers_root = replicate 256 NULL, ers_num = 0\<rparr>"

subsection \<open>Invariants and reachable states\<close>

text \<open>The managers in the root array: its first \<open>ers_num\<close> cells.\<close>

definition registered :: "ers_state \<Rightarrow> ptr list" where
  "registered st = take (unat (ers_num st)) (ers_root st)"

text \<open>
  The capacities the block array goes through, from the empty array on, under the rule
  of line 220.
\<close>

definition capacities :: "uint32 list" where
  "capacities =
     [0, 3, 15, 63, 255, 1023, 4095, 16383, 65535, 262143, 1048575, 4194303, 16777215,
      67108863, 268435455, 1073741823, 4294967295]"

definition ers_inv :: "ers \<Rightarrow> bool" where
  "ers_inv obj \<longleftrightarrow>
     num obj \<le> max_ers obj \<and>
     free obj \<le> ERS_BLOCK_ENTRIES - 1 \<and>
     (0 < free obj \<longrightarrow> 1 \<le> num obj) \<and>
     max_ers obj \<in> set capacities \<and>
     length (blocks obj) = unat (max_ers obj)"

definition wf_state :: "ers_state \<Rightarrow> bool" where
  "wf_state st \<longleftrightarrow>
     length (ers_root st) = unat ERS_ROOT_SIZE \<and>
     ers_num st \<le> ERS_ROOT_SIZE \<and>
     distinct (registered st) \<and>
     NULL \<notin> set (registered st) \<and>
     dom (objs st) = set (registered st) \<and>
     (\<forall>p \<in> set (registered st). \<exists>obj. objs st p = Some obj \<and> ers_inv obj) \<and>
     distinct (map (\<lambda>p. map_option size_ers (objs st p)) (registered st))"

text \<open>
  The allocations a manager holds: its record and, once the block array exists, the
  array and the blocks in it.
\<close>

definition owned :: "ptr \<Rightarrow> ers \<Rightarrow> ptr set" where
  "owned p obj =
     insert p
       (if max_ers obj \<noteq> 0
        then insert (blocks_ptr obj) (set (take (unat (num obj)) (blocks obj)))
        else {})"

text \<open>
  The states a process reaches: it starts with an empty root array and calls the
  functions of the system, with any arguments, and goes on after every call that
  returns. The allocator never returns the address of a live manager.
\<close>

inductive reachable :: "ers_state \<Rightarrow> bool" where
  start: "ers_num st = 0 \<Longrightarrow> objs st = Map.empty \<Longrightarrow> length (ers_root st) = unat ERS_ROOT_SIZE
    \<Longrightarrow> reachable st"
| new: "reachable st \<Longrightarrow> p \<notin> dom (objs st) \<Longrightarrow> ers_new al lk sz p st = Inr (h, st')
    \<Longrightarrow> reachable st'"
| alloc: "reachable st \<Longrightarrow> ers_obj_alloc_entry q b h st = Inr (e, st') \<Longrightarrow> reachable st'"
| free: "reachable st \<Longrightarrow> ers_obj_free_entry h e st = Inr st' \<Longrightarrow> reachable st'"
| destroy: "reachable st \<Longrightarrow> ers_obj_destroy h st = Inr (w, st') \<Longrightarrow> reachable st'"
| destroy_all: "reachable st \<Longrightarrow> ers_force_destroy_all st = Inr st' \<Longrightarrow> reachable st'"

subsection \<open>Two states of a small run\<close>

text \<open>
  \<open>example_acquired\<close>: a fresh process has called \<^verbatim>\<open>ers_new(5)\<close>, with an alignment of 8
  bytes and pointers of 8 bytes, and the allocator has placed the manager at address
  4096. \<open>example_block\<close>: the process has then allocated one entry; the allocator has
  placed the block array at 8192 and the block at 65536.
\<close>

definition example_acquired :: ers_state where
  "example_acquired =
     \<lparr>objs = [4096 \<mapsto>
        \<lparr>reuse = NULL, blocks_ptr = NULL, blocks = [], free = 0, num = 0, max_ers = 0,
         destroy = 1, size_ers = 8\<rparr>],
      ll_next = (\<lambda>_. NULL),
      allocated = [4096 \<mapsto> Manager],
      ers_root = (replicate 256 NULL)[0 := 4096],
      ers_num = 1\<rparr>"

definition example_block :: ers_state where
  "example_block =
     \<lparr>objs = [4096 \<mapsto>
        \<lparr>reuse = NULL, blocks_ptr = 8192, blocks = [65536, NULL, NULL], free = 4095, num = 1,
         max_ers = 3, destroy = 1, size_ers = 8\<rparr>],
      ll_next = (\<lambda>_. NULL),
      allocated = [4096 \<mapsto> Manager, 8192 \<mapsto> BlockArray 3, 65536 \<mapsto> Block 32768],
      ers_root = (replicate 256 NULL)[0 := 4096],
      ers_num = 1\<rparr>"

text \<open>
  \<open>example_shared\<close>: the process has then called \<^verbatim>\<open>ers_new(7)\<close>; the manager has two
  instances.
\<close>

definition example_shared :: ers_state where
  "example_shared =
     example_block\<lparr>objs := [4096 \<mapsto>
        \<lparr>reuse = NULL, blocks_ptr = 8192, blocks = [65536, NULL, NULL], free = 4095, num = 1,
         max_ers = 3, destroy = 2, size_ers = 8\<rparr>]\<rparr>"

section \<open>Invariants of the reachable states\<close>

subsection \<open>Counters\<close>

lemma root_index_bound:
  assumes "n \<le> ERS_ROOT_SIZE" and "n \<noteq> ERS_ROOT_SIZE"
  shows "unat n < 256" and "unat (n + 1) = Suc (unat n)"
proof -
  from assms have "n < 256"
    by (simp add: ERS_ROOT_SIZE_def word_le_less_eq)
  then show a: "unat n < 256"
    by (simp add: word_less_nat_alt)
  then show "unat (n + 1) = Suc (unat n)"
    by (simp add: unat_word_ariths)
qed

lemma next_capacity_cases:
  assumes "mx \<in> set capacities" and "mx \<noteq> UINT32_MAX"
  shows "push_bit 2 mx + 3 \<in> set capacities \<and> unat (push_bit 2 mx + 3) = 4 * unat mx + 3"
proof -
  from assms have "mx \<in> set (butlast capacities)"
    by (simp add: capacities_def UINT32_MAX_def)
  then consider "mx = 0" | "mx = 3" | "mx = 15" | "mx = 63" | "mx = 255" | "mx = 1023" | "mx = 4095"
    | "mx = 16383" | "mx = 65535" | "mx = 262143" | "mx = 1048575" | "mx = 4194303" | "mx = 16777215"
    | "mx = 67108863" | "mx = 268435455" | "mx = 1073741823"
    by (auto simp: capacities_def)
  then show ?thesis
    by cases (simp_all add: capacities_def push_bit_eq_mult)
qed

lemma next_capacity:
  assumes "mx \<in> set capacities" and "mx \<noteq> UINT32_MAX"
  shows "push_bit 2 mx + 3 \<in> set capacities"
    and "unat (push_bit 2 mx + 3) = 4 * unat mx + 3"
  using next_capacity_cases [OF assms] by simp_all

lemma num_below_max:
  fixes n m :: uint32
  assumes "n \<le> m" and "n \<noteq> m"
  shows "n + 1 \<le> m" and "unat n < unat m"
  using assms by unat_arith+

lemma num_pred:
  fixes n :: uint32
  assumes "1 \<le> n"
  shows "unat (n - 1) < unat n"
  using assms by unat_arith

lemma free_pred:
  fixes f :: uint32
  assumes "f \<noteq> 0" and "f \<le> ERS_BLOCK_ENTRIES - 1"
  shows "f - 1 \<le> ERS_BLOCK_ENTRIES - 1"
  using assms unfolding ERS_BLOCK_ENTRIES_def by unat_arith

lemma word_pos: "(f :: uint32) \<noteq> 0 \<Longrightarrow> 0 < f"
  by (simp add: word_greater_zero_iff)

lemma expand_blocks_inv:
  assumes "expand_blocks q obj m = Inr (obj1, m1)" and "ers_inv obj"
  shows "ers_inv obj1" and "num obj1 \<noteq> max_ers obj1" and "num obj1 = num obj"
    and "size_ers obj1 = size_ers obj" and "reuse obj1 = reuse obj" and "destroy obj1 = destroy obj"
    and "free obj1 = free obj"
proof -
  show i: "ers_inv obj1"
  proof (cases "num obj = max_ers obj")
    case False
    with assms show ?thesis by (simp add: expand_blocks_def)
  next
    case True
    with assms have ne: "max_ers obj \<noteq> UINT32_MAX" and q: "q \<noteq> NULL"
      by (auto simp: expand_blocks_def Let_def split: if_splits)
    from assms(2) have c: "max_ers obj \<in> set capacities" and l: "length (blocks obj) = unat (max_ers obj)"
       and n: "num obj \<le> max_ers obj" and f: "free obj \<le> ERS_BLOCK_ENTRIES - 1" "0 < free obj \<longrightarrow> 1 \<le> num obj"
      by (simp_all add: ers_inv_def)
    note nc = next_capacity [OF c ne]
    have o1: "obj1 = obj\<lparr>max_ers := push_bit 2 (max_ers obj) + 3, blocks_ptr := q,
        blocks := RECREATE_cells (blocks obj) (unat (push_bit 2 (max_ers obj) + 3))\<rparr>"
      using assms(1) True ne q by (simp add: expand_blocks_def Let_def)
    have "max_ers obj \<le> push_bit 2 (max_ers obj) + 3"
      using nc(2) by (simp add: word_le_nat_alt)
    with n have "num obj \<le> push_bit 2 (max_ers obj) + 3" by simp
    then show ?thesis
      using nc f l by (simp add: o1 ers_inv_def RECREATE_cells_def)
  qed
  show "num obj1 \<noteq> max_ers obj1"
  proof (cases "num obj = max_ers obj")
    case False
    with assms show ?thesis by (simp add: expand_blocks_def)
  next
    case True
    with assms have ne: "max_ers obj \<noteq> UINT32_MAX" and q: "q \<noteq> NULL"
      by (auto simp: expand_blocks_def Let_def split: if_splits)
    from assms(2) have c: "max_ers obj \<in> set capacities"
      by (simp_all add: ers_inv_def)
    note nc = next_capacity [OF c ne]
    have "unat (num obj1) \<noteq> unat (max_ers obj1)"
      using assms(1) True ne q nc(2) by (auto simp add: expand_blocks_def Let_def)
    then show ?thesis by auto
  qed
  show "num obj1 = num obj" "size_ers obj1 = size_ers obj" "reuse obj1 = reuse obj"
    "destroy obj1 = destroy obj" "free obj1 = free obj"
    using assms(1) by (auto simp: expand_blocks_def Let_def split: if_splits)
qed


lemma alloc_entry_grow:
  assumes "ers_obj_alloc_entry q b h st = Inr (e, st')" and "h \<noteq> NULL"
    and "objs st h = Some obj" and "reuse obj = NULL" and "free obj = 0"
  shows "\<exists>obj1 m1. expand_blocks q obj (allocated st) = Inr (obj1, m1) \<and> b \<noteq> NULL \<and>
      unat (num obj1) < length (blocks obj1) \<and>
      e = b + unat ((ERS_BLOCK_ENTRIES - 1) * size_ers obj1) \<and>
      st' = st\<lparr>objs := (objs st)(h \<mapsto> obj1\<lparr>blocks := (blocks obj1)[unat (num obj1) := b],
                 free := ERS_BLOCK_ENTRIES - 1, num := num obj1 + 1\<rparr>),
               allocated := aMalloc b (Block (size_ers obj1 * ERS_BLOCK_ENTRIES)) m1\<rparr>"
proof (cases "expand_blocks q obj (allocated st)")
  case (Inl err)
  with assms show ?thesis
    by (simp add: ers_obj_alloc_entry_def)
next
  case (Inr r)
  obtain obj1 m1 where r: "r = (obj1, m1)"
    by (cases r)
  from assms Inr r show ?thesis
    by (simp add: ers_obj_alloc_entry_def Let_def split: if_splits)
qed

lemma word_succ_unat:
  fixes n m :: uint32
  assumes "n < m"
  shows "unat (n + 1) = Suc (unat n)"
proof -
  have "unat n < unat m"
    using assms by (simp add: word_less_nat_alt)
  moreover have "unat m < 2 ^ 32"
    using unsigned_less [of m, where 'a = nat] by simp
  ultimately have "unat n + 1 < 2 ^ 32"
    by simp
  then show ?thesis
    by (simp add: unat_word_ariths)
qed

lemma grow_inv:
  assumes "ers_inv obj1" and "num obj1 \<noteq> max_ers obj1"
  shows "ers_inv (obj1\<lparr>blocks := (blocks obj1)[unat (num obj1) := b],
                 free := ERS_BLOCK_ENTRIES - 1, num := num obj1 + 1\<rparr>)"
proof -
  from assms(1) have n: "num obj1 \<le> max_ers obj1"
    and l: "length (blocks obj1) = unat (max_ers obj1)"
    and c: "max_ers obj1 \<in> set capacities"
    by (simp_all add: ers_inv_def)
  from n assms(2) have lt: "num obj1 < max_ers obj1"
    by (simp add: word_le_less_eq)
  then have le: "num obj1 + 1 \<le> max_ers obj1"
    by (rule inc_le)
  have "1 \<le> num obj1 + 1"
    by (simp add: word_le_nat_alt word_succ_unat [OF lt])
  with le l c show ?thesis
    by (simp add: ers_inv_def)
qed

lemma alloc_entry_effect:
  assumes "ers_obj_alloc_entry q b h st = Inr (e, st')" and "h \<noteq> NULL"
    and "objs st h = Some obj" and "ers_inv obj"
  shows "\<exists>obj'. objs st' = (objs st)(h \<mapsto> obj') \<and> ers_inv obj' \<and> size_ers obj' = size_ers obj
     \<and> destroy obj' = destroy obj"
    and "ers_root st' = ers_root st" and "ers_num st' = ers_num st"
proof -
  have "\<exists>obj'. st' = st\<lparr>objs := (objs st)(h \<mapsto> obj'), allocated := allocated st'\<rparr> \<and>
      ers_inv obj' \<and> size_ers obj' = size_ers obj \<and> destroy obj' = destroy obj"
  proof -
    consider (r) "reuse obj \<noteq> NULL" | (f) "reuse obj = NULL" "free obj \<noteq> 0"
      | (g) "reuse obj = NULL" "free obj = 0"
      by blast
    then show ?thesis
    proof cases
      case r
      with assms have s: "st' = st\<lparr>objs := (objs st)(h \<mapsto> obj\<lparr>reuse := ll_next st (reuse obj)\<rparr>)\<rparr>"
        by (auto simp: ers_obj_alloc_entry_def)
      have i: "ers_inv (obj\<lparr>reuse := ll_next st (reuse obj)\<rparr>)"
        using assms(4) by (simp add: ers_inv_def)
      show ?thesis
        by (rule exI [of _ "obj\<lparr>reuse := ll_next st (reuse obj)\<rparr>"]) (simp add: s i)
    next
      case f
      from assms(4) f(2) have "1 \<le> num obj"
        by (simp add: ers_inv_def word_greater_zero_iff)
      from num_pred [OF this] assms(4) have "unat (num obj - 1) < length (blocks obj)"
        by (simp add: ers_inv_def word_le_nat_alt)
      with assms(1-3) f have s: "st' = st\<lparr>objs := (objs st)(h \<mapsto> obj\<lparr>free := free obj - 1\<rparr>)\<rparr>"
        by (simp add: ers_obj_alloc_entry_def Let_def)
      from f(2) have p: "0 < free obj"
        by (rule word_pos)
      from assms(4) have "free obj \<le> ERS_BLOCK_ENTRIES - 1"
        by (simp add: ers_inv_def)
      from free_pred [OF f(2) this] have a: "free obj - 1 \<le> ERS_BLOCK_ENTRIES - 1" .
      from assms(4) p have b: "1 \<le> num obj"
        by (simp add: ers_inv_def)
      from assms(4) a b have i: "ers_inv (obj\<lparr>free := free obj - 1\<rparr>)"
        by (simp add: ers_inv_def)
      show ?thesis
        by (rule exI [of _ "obj\<lparr>free := free obj - 1\<rparr>"]) (simp add: s i)
    next
      case g
      from alloc_entry_grow [OF assms(1-3) g] obtain obj1 m1 where
        e: "expand_blocks q obj (allocated st) = Inr (obj1, m1)"
        and s: "st' = st\<lparr>objs := (objs st)(h \<mapsto> obj1\<lparr>blocks := (blocks obj1)[unat (num obj1) := b],
                   free := ERS_BLOCK_ENTRIES - 1, num := num obj1 + 1\<rparr>),
                 allocated := aMalloc b (Block (size_ers obj1 * ERS_BLOCK_ENTRIES)) m1\<rparr>"
        by blast
      note x = expand_blocks_inv [OF e assms(4)]
      note i = grow_inv [OF x(1) x(2), of b]
      show ?thesis
        by (rule exI [of _ "obj1\<lparr>blocks := (blocks obj1)[unat (num obj1) := b],
                   free := ERS_BLOCK_ENTRIES - 1, num := num obj1 + 1\<rparr>"]) (simp add: s i x(4) x(6))
    qed
  qed
  then obtain obj' where s: "st' = st\<lparr>objs := (objs st)(h \<mapsto> obj'), allocated := allocated st'\<rparr>"
    and i: "ers_inv obj'" "size_ers obj' = size_ers obj" "destroy obj' = destroy obj"
    by blast
  have o: "objs st' = (objs st)(h \<mapsto> obj')"
    by (subst s) simp
  show "\<exists>obj'. objs st' = (objs st)(h \<mapsto> obj') \<and> ers_inv obj' \<and> size_ers obj' = size_ers obj
     \<and> destroy obj' = destroy obj"
    using o i by blast
  show "ers_root st' = ers_root st"
    by (subst s) simp
  show "ers_num st' = ers_num st"
    by (subst s) simp
qed

subsection \<open>The search through the root array\<close>

lemma lookup_None:
  assumes "ers_new_lookup sz i st = Inr None" and "i \<le> j" and "j < unat (ers_num st)"
  shows "\<exists>obj. objs st (ers_root st ! j) = Some obj \<and> size_ers obj \<noteq> sz"
  using assms
proof (induction sz i st rule: ers_new_lookup.induct)
  case (1 sz i st)
  from "1.prems" have lt: "i < unat (ers_num st)"
    by simp
  from "1.prems"(1) lt obtain obj where o: "objs st (ers_root st ! i) = Some obj"
    and len: "\<not> length (ers_root st) \<le> i"
    by (subst (asm) ers_new_lookup.simps) (auto split: if_splits option.splits)
  from "1.prems"(1) lt o len have ne: "size_ers obj \<noteq> sz"
    and rest: "ers_new_lookup sz (Suc i) st = Inr None"
    by (subst (asm) ers_new_lookup.simps, auto split: if_splits)+
  show ?case
  proof (cases "j = i")
    case True
    with o ne show ?thesis by simp
  next
    case False
    with "1.prems" have "Suc i \<le> j" by simp
    from "1.IH" [OF lt len o ne rest this "1.prems"(3)] show ?thesis .
  qed
qed

lemma lookup_Some:
  assumes "ers_new_lookup sz i st = Inr (Some h)"
  shows "\<exists>j obj. i \<le> j \<and> j < unat (ers_num st) \<and> j < length (ers_root st) \<and>
    h = ers_root st ! j \<and> objs st h = Some obj \<and> size_ers obj = sz"
  using assms
proof (induction sz i st rule: ers_new_lookup.induct)
  case (1 sz i st)
  from "1.prems" have lt: "i < unat (ers_num st)"
    by (subst (asm) ers_new_lookup.simps) (auto split: if_splits)
  from "1.prems"(1) lt obtain obj where o: "objs st (ers_root st ! i) = Some obj"
    and len: "\<not> length (ers_root st) \<le> i"
    by (subst (asm) ers_new_lookup.simps) (auto split: if_splits option.splits)
  show ?case
  proof (cases "size_ers obj = sz")
    case True
    with "1.prems" lt o len have "h = ers_root st ! i"
      by (subst (asm) ers_new_lookup.simps) simp
    with True lt o len show ?thesis
      by (intro exI [of _ i] exI [of _ obj]) simp
  next
    case False
    with "1.prems" lt o len have "ers_new_lookup sz (Suc i) st = Inr (Some h)"
      by (subst (asm) ers_new_lookup.simps) simp
    from "1.IH" [OF lt len o False this] obtain j obj' where
      "Suc i \<le> j" "j < unat (ers_num st)" "j < length (ers_root st)"
      "h = ers_root st ! j" "objs st h = Some obj'" "size_ers obj' = sz"
      by blast
    then show ?thesis
      by (intro exI [of _ j] exI [of _ obj']) simp
  qed
qed

lemma lookup_found:
  assumes "i \<le> k" and "k < unat (ers_num st)" and "unat (ers_num st) \<le> length (ers_root st)"
    and "objs st (ers_root st ! k) = Some obj" and "size_ers obj = sz"
    and "\<forall>j. i \<le> j \<and> j < k \<longrightarrow> (\<exists>ob. objs st (ers_root st ! j) = Some ob \<and> size_ers ob \<noteq> sz)"
  shows "ers_new_lookup sz i st = Inr (Some (ers_root st ! k))"
  using assms
proof (induction sz i st rule: ers_new_lookup.induct)
  case (1 sz i st)
  from "1.prems" have lt: "i < unat (ers_num st)" and len: "\<not> length (ers_root st) \<le> i"
    by simp_all
  show ?case
  proof (cases "i = k")
    case True
    with "1.prems" lt len show ?thesis
      by (subst ers_new_lookup.simps) simp
  next
    case False
    with "1.prems" have ik: "i < k" "Suc i \<le> k" by simp_all
    with "1.prems"(6) obtain ob where ob: "objs st (ers_root st ! i) = Some ob" "size_ers ob \<noteq> sz"
      by blast
    have "\<forall>j. Suc i \<le> j \<and> j < k \<longrightarrow> (\<exists>ob. objs st (ers_root st ! j) = Some ob \<and> size_ers ob \<noteq> sz)"
      using "1.prems"(6) by simp
    from "1.IH" [OF lt len ob ik(2) "1.prems"(2-5) this] lt len ob show ?thesis
      by (subst ers_new_lookup.simps) simp
  qed
qed

lemma lookup_not_found:
  assumes "unat (ers_num st) \<le> length (ers_root st)"
    and "\<forall>j. i \<le> j \<and> j < unat (ers_num st) \<longrightarrow>
      (\<exists>ob. objs st (ers_root st ! j) = Some ob \<and> size_ers ob \<noteq> sz)"
  shows "ers_new_lookup sz i st = Inr None"
  using assms
proof (induction sz i st rule: ers_new_lookup.induct)
  case (1 sz i st)
  show ?case
  proof (cases "i < unat (ers_num st)")
    case False
    then show ?thesis
      by (subst ers_new_lookup.simps) simp
  next
    case True
    with "1.prems" have len: "\<not> length (ers_root st) \<le> i" by simp
    from True "1.prems"(2) obtain ob where ob: "objs st (ers_root st ! i) = Some ob" "size_ers ob \<noteq> sz"
      by blast
    have "\<forall>j. Suc i \<le> j \<and> j < unat (ers_num st) \<longrightarrow>
      (\<exists>ob. objs st (ers_root st ! j) = Some ob \<and> size_ers ob \<noteq> sz)"
      using "1.prems"(2) by simp
    from "1.IH" [OF True len ob "1.prems"(1) this] True len ob show ?thesis
      by (subst ers_new_lookup.simps) simp
  qed
qed

subsection \<open>Allocation, release and creation keep the root array well formed\<close>

lemma wf_update_obj:
  assumes wf: "wf_state st" and h: "objs st h = Some obj"
    and inv: "ers_inv obj'" and sz: "size_ers obj' = size_ers obj"
    and o: "objs st' = (objs st)(h \<mapsto> obj')"
    and r: "ers_root st' = ers_root st" and n: "ers_num st' = ers_num st"
  shows "wf_state st'"
proof -
  have reg: "registered st' = registered st"
    by (simp add: registered_def r n)
  have dm: "dom (objs st') = dom (objs st)"
    using h by (auto simp: o)
  have sizes: "map_option size_ers (objs st' p) = map_option size_ers (objs st p)" for p
    using h sz by (simp add: o)
  have invs: "\<exists>ob. objs st' p = Some ob \<and> ers_inv ob" if "p \<in> set (registered st)" for p
  proof (cases "p = h")
    case True
    then show ?thesis by (simp add: o inv)
  next
    case False
    with wf that show ?thesis by (simp add: o wf_state_def)
  qed
  from wf show ?thesis
    unfolding wf_state_def reg dm r n sizes using invs by blast
qed

lemma wf_live_inv:
  assumes "wf_state st" and "objs st h = Some obj"
  shows "ers_inv obj" and "h \<in> set (registered st)" and "h \<noteq> NULL"
proof -
  from assms have "h \<in> dom (objs st)" by blast
  with assms(1) show r: "h \<in> set (registered st)"
    by (simp add: wf_state_def)
  with assms show "ers_inv obj"
    by (auto simp: wf_state_def)
  from assms(1) r show "h \<noteq> NULL"
    by (auto simp: wf_state_def)
qed

lemma wf_alloc:
  assumes "wf_state st" and "ers_obj_alloc_entry q b h st = Inr (e, st')"
  shows "wf_state st'"
proof (cases "h = NULL")
  case True
  with assms show ?thesis by (simp add: ers_obj_alloc_entry_def)
next
  case False
  with assms(2) obtain obj where obj: "objs st h = Some obj"
    by (auto simp: ers_obj_alloc_entry_def split: option.splits)
  note eff = alloc_entry_effect [OF assms(2) False obj wf_live_inv(1) [OF assms(1) obj]]
  from eff(1) obtain obj' where "objs st' = (objs st)(h \<mapsto> obj')" "ers_inv obj'"
    "size_ers obj' = size_ers obj"
    by blast
  with assms(1) obj eff(2,3) show ?thesis
    by (blast intro: wf_update_obj)
qed

lemma wf_free:
  assumes "wf_state st" and "ers_obj_free_entry h e st = Inr st'"
  shows "wf_state st'"
proof (cases "h = NULL \<or> e = NULL")
  case True
  with assms show ?thesis by (auto simp: ers_obj_free_entry_def split: if_splits)
next
  case False
  with assms(2) obtain obj where obj: "objs st h = Some obj"
    by (auto simp: ers_obj_free_entry_def split: option.splits)
  with assms(2) False have s: "st' = st\<lparr>ll_next := (ll_next st)(e := reuse obj),
      objs := (objs st)(h \<mapsto> obj\<lparr>reuse := e\<rparr>)\<rparr>"
    by (auto simp: ers_obj_free_entry_def)
  have "ers_inv (obj\<lparr>reuse := e\<rparr>)"
    using wf_live_inv(1) [OF assms(1) obj] by (simp add: ers_inv_def)
  with assms(1) obj show ?thesis
    by (rule wf_update_obj) (simp_all add: s)
qed


lemma registered_append:
  assumes "length (ers_root st) = unat ERS_ROOT_SIZE" and "ers_num st \<le> ERS_ROOT_SIZE"
    and "ers_num st \<noteq> ERS_ROOT_SIZE"
    and "ers_root st' = (ers_root st)[unat (ers_num st) := p]" and "ers_num st' = ers_num st + 1"
  shows "registered st' = registered st @ [p]"
proof -
  note b = root_index_bound [OF assms(2,3)]
  from b(1) assms(1) have lt: "unat (ers_num st) < length (ers_root st)"
    by (simp add: ERS_ROOT_SIZE_def)
  have "take (Suc (unat (ers_num st))) ((ers_root st)[unat (ers_num st) := p]) =
      take (unat (ers_num st)) (ers_root st) @ [p]"
    using lt by (simp add: take_Suc_conv_app_nth)
  then show ?thesis
    by (simp add: registered_def assms(4,5) b(2))
qed

lemma wf_new:
  assumes wf: "wf_state st" and fresh: "p \<notin> dom (objs st)"
    and new: "ers_new al lk sz0 p st = Inr (h, st')"
  shows "wf_state st'"
proof (cases "sz0 = 0")
  case True
  with wf new show ?thesis by (simp add: ers_new_def)
next
  case False
  define sz where "sz = aligned_size al lk sz0"
  from new False have al: "al \<noteq> 0"
    by (auto simp: ers_new_def split: if_splits)
  show ?thesis
  proof (cases "ers_new_lookup sz 0 st")
    case (Inl err)
    with new False al show ?thesis
      by (simp add: ers_new_def sz_def)
  next
    case (Inr r)
    show ?thesis
    proof (cases r)
      case (Some g)
      with new False al Inr obtain obj where obj: "objs st g = Some obj"
        and s: "st' = st\<lparr>objs := (objs st)(g \<mapsto> obj\<lparr>destroy := destroy obj + 1\<rparr>)\<rparr>"
        by (auto simp: ers_new_def sz_def split: option.splits)
      have "ers_inv (obj\<lparr>destroy := destroy obj + 1\<rparr>)"
        using wf_live_inv(1) [OF wf obj] by (simp add: ers_inv_def)
      with wf obj show ?thesis
        by (rule wf_update_obj) (simp_all add: s)
    next
      case None
      with new False al Inr have full: "ers_num st \<noteq> ERS_ROOT_SIZE" and p: "p \<noteq> NULL"
        and s: "st' = st\<lparr>objs := (objs st)(p \<mapsto>
              \<lparr>reuse = NULL, blocks_ptr = NULL, blocks = [], free = 0, num = 0,
               max_ers = 0, destroy = 1, size_ers = sz\<rparr>),
            allocated := aMalloc p Manager (allocated st),
            ers_root := (ers_root st)[unat (ers_num st) := p],
            ers_num := ers_num st + 1\<rparr>"
        by (auto simp: ers_new_def sz_def Let_def split: if_splits)
      let ?new = "\<lparr>reuse = NULL, blocks_ptr = NULL, blocks = [], free = 0, num = 0,
               max_ers = 0, destroy = 1, size_ers = sz\<rparr>"
      from wf have len: "length (ers_root st) = unat ERS_ROOT_SIZE" and le: "ers_num st \<le> ERS_ROOT_SIZE"
        and dist: "distinct (registered st)" and nn: "NULL \<notin> set (registered st)"
        and dm: "dom (objs st) = set (registered st)"
        and invs: "\<forall>q \<in> set (registered st). \<exists>obj. objs st q = Some obj \<and> ers_inv obj"
        and sizes: "distinct (map (\<lambda>q. map_option size_ers (objs st q)) (registered st))"
        by (simp_all add: wf_state_def)
      have reg: "registered st' = registered st @ [p]"
        by (rule registered_append [OF len le full]) (simp_all add: s)
      have pn: "p \<notin> set (registered st)"
        using fresh dm by simp
      have o: "objs st' = (objs st)(p \<mapsto> ?new)"
        by (simp add: s)
      have other: "objs st' q = objs st q" if "q \<in> set (registered st)" for q
        using that pn by (auto simp: o)
      have nosz: "map_option size_ers (objs st q) \<noteq> Some sz" if "q \<in> set (registered st)" for q
      proof -
        from that obtain j where j: "j < length (registered st)" "q = registered st ! j"
          by (auto simp: in_set_conv_nth)
        then have "j < unat (ers_num st)" "q = ers_root st ! j"
          by (simp_all add: registered_def)
        with lookup_None [OF Inr [unfolded None], of j] show ?thesis
          by auto
      qed
      have b: "unat (ers_num st + 1) = Suc (unat (ers_num st))" "unat (ers_num st) < 256"
        using root_index_bound [OF le full] by simp_all
      have 1: "length (ers_root st') = unat ERS_ROOT_SIZE"
        by (simp add: s len)
      have 2: "ers_num st' \<le> ERS_ROOT_SIZE"
        using b by (simp add: s word_le_nat_alt ERS_ROOT_SIZE_def)
      have 3: "distinct (registered st')"
        using dist pn by (simp add: reg)
      have 4: "NULL \<notin> set (registered st')"
        using nn p by (simp add: reg)
      have 5: "dom (objs st') = set (registered st')"
        using dm by (simp add: reg o)
      have 6: "\<forall>q \<in> set (registered st'). \<exists>obj. objs st' q = Some obj \<and> ers_inv obj"
      proof
        fix q assume "q \<in> set (registered st')"
        then consider "q = p" | "q \<in> set (registered st)" "q \<noteq> p"
          by (auto simp: reg)
        then show "\<exists>obj. objs st' q = Some obj \<and> ers_inv obj"
        proof cases
          case 1
          then show ?thesis
            by (simp add: o ers_inv_def capacities_def ERS_BLOCK_ENTRIES_def)
        next
          case 2
          with invs show ?thesis by (simp add: o)
        qed
      qed
      have eq: "map (\<lambda>q. map_option size_ers (objs st' q)) (registered st) =
          map (\<lambda>q. map_option size_ers (objs st q)) (registered st)"
        using other by simp
      have fp: "map_option size_ers (objs st' p) = Some sz"
        by (simp add: o)
      have notin: "Some sz \<notin> (\<lambda>q. map_option size_ers (objs st q)) ` set (registered st)"
      proof
        assume "Some sz \<in> (\<lambda>q. map_option size_ers (objs st q)) ` set (registered st)"
        then obtain q where "q \<in> set (registered st)" "map_option size_ers (objs st q) = Some sz"
          by force
        with nosz show False by blast
      qed
      have 7: "distinct (map (\<lambda>q. map_option size_ers (objs st' q)) (registered st'))"
        unfolding reg map_append list.map eq fp using sizes notin by simp
      from 1 2 3 4 5 6 7 show ?thesis
        unfolding wf_state_def by blast
    qed
  qed
qed

subsection \<open>The destruction of an instance\<close>

lemma swap_remove:
  assumes "distinct xs" and "k < length xs"
  shows "distinct (butlast (xs[k := last xs]))"
    and "set (butlast (xs[k := last xs])) = set xs - {xs ! k}"
proof -
  from assms(2) obtain as l where xs: "xs = as @ [l]"
    by (cases xs rule: rev_cases) auto
  show "distinct (butlast (xs[k := last xs]))"
  proof (cases "k < length as")
    case True
    with assms(1) show ?thesis
      by (simp add: xs list_update_append distinct_list_update)
  next
    case False
    with assms show ?thesis
      by (simp add: xs list_update_append)
  qed
  show "set (butlast (xs[k := last xs])) = set xs - {xs ! k}"
  proof (cases "k < length as")
    case True
    with assms(1) show ?thesis
      by (auto simp: xs list_update_append set_update_distinct nth_append)
  next
    case False
    with assms have "k = length as" by (simp add: xs)
    with assms(1) show ?thesis
      by (auto simp: xs list_update_append)
  qed
qed

lemma root_remove_found:
  assumes "i \<le> k" and "k < unat (ers_num st)" and "unat (ers_num st) \<le> length (ers_root st)"
    and "ers_root st ! k = h" and "\<forall>j. i \<le> j \<and> j < k \<longrightarrow> ers_root st ! j \<noteq> h"
  shows "root_remove h i st =
    Inr (st\<lparr>ers_num := ers_num st - 1,
           ers_root := (ers_root st)[k := ers_root st ! unat (ers_num st - 1)]\<rparr>)"
  using assms
proof (induction h i st rule: root_remove.induct)
  case (1 h i st)
  from "1.prems" have lt: "i < unat (ers_num st)" and len: "\<not> length (ers_root st) \<le> i"
    by simp_all
  have n1: "unat (ers_num st - 1) = unat (ers_num st) - 1"
    using "1.prems"(2) by (simp add: unat_minus_one unat_eq_zero [symmetric])
  show ?case
  proof (cases "i = k")
    case True
    show ?thesis
    proof (cases "k < unat (ers_num st - 1)")
      case True
      with \<open>i = k\<close> "1.prems" lt len n1 show ?thesis
        by (subst root_remove.simps) (simp add: Let_def)
    next
      case False
      with n1 "1.prems"(2) have "k = unat (ers_num st - 1)" by simp
      then have "(ers_root st)[k := ers_root st ! unat (ers_num st - 1)] = ers_root st"
        by simp
      with False \<open>i = k\<close> "1.prems" lt len show ?thesis
        by (subst root_remove.simps) (simp add: Let_def)
    qed
  next
    case False
    with "1.prems" have ik: "Suc i \<le> k" and ne: "ers_root st ! i \<noteq> h"
      by simp_all
    have "\<forall>j. Suc i \<le> j \<and> j < k \<longrightarrow> ers_root st ! j \<noteq> h"
      using "1.prems"(5) by simp
    from "1.IH" [OF lt len ne ik "1.prems"(2-4) this] lt len ne show ?thesis
      by (subst root_remove.simps) simp
  qed
qed

lemma free_blocks_result:
  assumes "unat (num obj) \<le> length (blocks obj)"
  shows "\<exists>m'. free_blocks obj i m = Inr m' \<and>
    (\<forall>p. m' p = (if p \<in> set (drop i (take (unat (num obj)) (blocks obj))) then None else m p))"
  using assms
proof (induction obj i m rule: free_blocks.induct)
  case (1 obj i m)
  show ?case
  proof (cases "i < unat (num obj)")
    case False
    then show ?thesis
      by (subst free_blocks.simps) simp
  next
    case True
    with "1.prems" have len: "\<not> length (blocks obj) \<le> i" by simp
    from "1.IH" [OF True len "1.prems"] obtain m' where
      r: "free_blocks obj (Suc i) (aFree (blocks obj ! i) m) = Inr m'"
      and m': "\<forall>p. m' p = (if p \<in> set (drop (Suc i) (take (unat (num obj)) (blocks obj)))
          then None else aFree (blocks obj ! i) m p)"
      by blast
    have d: "drop i (take (unat (num obj)) (blocks obj)) =
      blocks obj ! i # drop (Suc i) (take (unat (num obj)) (blocks obj))"
      using True len by (simp add: Cons_nth_drop_Suc [symmetric])
    have "free_blocks obj i m = Inr m'"
      using True len r by (subst free_blocks.simps) simp
    moreover have "\<forall>p. m' p = (if p \<in> set (drop i (take (unat (num obj)) (blocks obj))) then None else m p)"
      unfolding d using m' by (simp add: aFree_def)
    ultimately show ?thesis by blast
  qed
qed


lemma release_manager_result:
  assumes "ers_inv obj"
  shows "\<exists>m'. release_manager h obj m = Inr m' \<and>
    (\<forall>p. m' p = (if p \<in> owned h obj then None else m p))"
proof -
  from assms have "unat (num obj) \<le> length (blocks obj)"
    by (simp add: ers_inv_def word_le_nat_alt)
  from free_blocks_result [OF this, of 0 m] obtain m1 where
    f: "free_blocks obj 0 m = Inr m1"
    and m1: "\<forall>p. m1 p = (if p \<in> set (take (unat (num obj)) (blocks obj)) then None else m p)"
    by auto
  show ?thesis
  proof (cases "max_ers obj = 0")
    case True
    then show ?thesis
      by (simp add: release_manager_def owned_def aFree_def)
  next
    case False
    with f m1 show ?thesis
      by (simp add: release_manager_def owned_def aFree_def)
  qed
qed

lemma registered_index:
  assumes "h \<in> set (registered st)"
  obtains k where "k < unat (ers_num st)" and "k < length (ers_root st)"
    and "ers_root st ! k = h" and "registered st ! k = h" and "k < length (registered st)"
proof -
  from assms obtain k where "k < length (registered st)" "registered st ! k = h"
    by (auto simp: in_set_conv_nth)
  then show thesis
    by (intro that [of k]) (simp_all add: registered_def)
qed

lemma take_swap:
  assumes "n \<le> length xs" and "k < n"
  shows "take (n - 1) (xs[k := xs ! (n - 1)]) = butlast ((take n xs)[k := last (take n xs)])"
proof -
  from assms have "take n xs \<noteq> []" by auto
  then have "last (take n xs) = xs ! (n - 1)"
    using assms by (simp add: last_conv_nth)
  then show ?thesis
    using assms by (simp add: butlast_conv_take take_update_swap min_def)
qed

lemma root_remove_registered:
  assumes wf: "wf_state st" and k: "k < length (registered st)" and h: "registered st ! k = h"
  shows "root_remove h 0 st =
      Inr (st\<lparr>ers_num := ers_num st - 1,
             ers_root := (ers_root st)[k := ers_root st ! unat (ers_num st - 1)]\<rparr>)"
    and "registered (st\<lparr>ers_num := ers_num st - 1,
             ers_root := (ers_root st)[k := ers_root st ! unat (ers_num st - 1)]\<rparr>) =
      butlast ((registered st)[k := last (registered st)])"
proof -
  from wf have len: "length (ers_root st) = unat ERS_ROOT_SIZE" and le: "ers_num st \<le> ERS_ROOT_SIZE"
    and dist: "distinct (registered st)"
    by (simp_all add: wf_state_def)
  from le len have nl: "unat (ers_num st) \<le> length (ers_root st)"
    by (simp add: word_le_nat_alt)
  then have lr: "length (registered st) = unat (ers_num st)"
    by (simp add: registered_def)
  from k lr have kn: "k < unat (ers_num st)" by simp
  have hk: "ers_root st ! k = h"
    using h k by (simp add: registered_def)
  have first: "\<forall>j. 0 \<le> j \<and> j < k \<longrightarrow> ers_root st ! j \<noteq> h"
  proof (intro allI impI)
    fix j assume j: "0 \<le> j \<and> j < k"
    with k have "registered st ! j \<noteq> registered st ! k"
      using dist by (simp add: nth_eq_iff_index_eq)
    with j k h show "ers_root st ! j \<noteq> h"
      by (simp add: registered_def)
  qed
  show "root_remove h 0 st =
      Inr (st\<lparr>ers_num := ers_num st - 1,
             ers_root := (ers_root st)[k := ers_root st ! unat (ers_num st - 1)]\<rparr>)"
    by (rule root_remove_found [OF _ kn nl hk first]) simp
  have n1: "unat (ers_num st - 1) = unat (ers_num st) - 1"
    using kn by (simp add: unat_minus_one unat_eq_zero [symmetric])
  have ne: "registered st \<noteq> []"
    using k by auto
  have lst: "last (registered st) = ers_root st ! (unat (ers_num st) - 1)"
    using ne lr kn by (simp add: last_conv_nth registered_def)
  show "registered (st\<lparr>ers_num := ers_num st - 1,
             ers_root := (ers_root st)[k := ers_root st ! unat (ers_num st - 1)]\<rparr>) =
      butlast ((registered st)[k := last (registered st)])"
    using take_swap [OF nl kn] by (simp add: registered_def n1)
qed


lemma destroy_not_last:
  assumes "h \<noteq> NULL" and "objs st h = Some obj" and "destroy obj \<noteq> 1"
  shows "ers_obj_destroy h st =
    Inr (None, st\<lparr>objs := (objs st)(h \<mapsto> obj\<lparr>destroy := destroy obj - 1\<rparr>)\<rparr>)"
  using assms by (simp add: ers_obj_destroy_def Let_def)

lemma destroy_last:
  assumes wf: "wf_state st" and obj: "objs st h = Some obj" and one: "destroy obj = 1"
    and k: "k < length (registered st)" and h: "registered st ! k = h"
  shows "\<exists>m. (\<forall>p. m p = (if p \<in> owned h obj then None else allocated st p)) \<and>
    ers_obj_destroy h st =
      Inr (destroy_check (ll_next st) (obj\<lparr>destroy := 0\<rparr>),
           st\<lparr>ers_num := ers_num st - 1,
              ers_root := (ers_root st)[k := ers_root st ! unat (ers_num st - 1)],
              objs := (objs st)(h := None), allocated := m\<rparr>)"
proof -
  note w = wf_live_inv [OF wf obj]
  from w(1) have "ers_inv (obj\<lparr>destroy := 0\<rparr>)"
    by (simp add: ers_inv_def)
  from release_manager_result [OF this, of h "allocated st"] obtain m where
    r: "release_manager h (obj\<lparr>destroy := 0\<rparr>) (allocated st) = Inr m"
    and m: "\<forall>p. m p = (if p \<in> owned h (obj\<lparr>destroy := 0\<rparr>) then None else allocated st p)"
    by blast
  have ow: "owned h (obj\<lparr>destroy := 0\<rparr>) = owned h obj"
    by (simp add: owned_def)
  note rr = root_remove_registered(1) [OF wf k h]
  have e: "ers_obj_destroy h st =
      Inr (destroy_check (ll_next st) (obj\<lparr>destroy := 0\<rparr>),
           st\<lparr>ers_num := ers_num st - 1,
              ers_root := (ers_root st)[k := ers_root st ! unat (ers_num st - 1)],
              objs := (objs st)(h := None), allocated := m\<rparr>)"
    using w(3) obj one rr r by (simp add: ers_obj_destroy_def Let_def)
  show ?thesis
  proof (intro exI [of _ m] conjI)
    show "\<forall>p. m p = (if p \<in> owned h obj then None else allocated st p)"
      using m unfolding ow .
    show "ers_obj_destroy h st =
      Inr (destroy_check (ll_next st) (obj\<lparr>destroy := 0\<rparr>),
           st\<lparr>ers_num := ers_num st - 1,
              ers_root := (ers_root st)[k := ers_root st ! unat (ers_num st - 1)],
              objs := (objs st)(h := None), allocated := m\<rparr>)"
      by (fact e)
  qed
qed

lemma wf_destroy:
  assumes wf: "wf_state st" and d: "ers_obj_destroy h st = Inr (w, st')"
  shows "wf_state st'"
proof (cases "h = NULL")
  case True
  with assms show ?thesis by (simp add: ers_obj_destroy_def)
next
  case False
  with d obtain obj where obj: "objs st h = Some obj"
    by (auto simp: ers_obj_destroy_def split: option.splits)
  note lv = wf_live_inv [OF wf obj]
  show ?thesis
  proof (cases "destroy obj = 1")
    case False
    from destroy_not_last [OF \<open>h \<noteq> NULL\<close> obj False] d
    have s: "st' = st\<lparr>objs := (objs st)(h \<mapsto> obj\<lparr>destroy := destroy obj - 1\<rparr>)\<rparr>"
      by simp
    have "ers_inv (obj\<lparr>destroy := destroy obj - 1\<rparr>)"
      using lv(1) by (simp add: ers_inv_def)
    with wf obj show ?thesis
      by (rule wf_update_obj) (simp_all add: s)
  next
    case True
    from lv(2) obtain k where k: "k < length (registered st)" "registered st ! k = h"
      by (auto simp: in_set_conv_nth)
    from destroy_last [OF wf obj True k] d obtain m where
      s: "st' = st\<lparr>ers_num := ers_num st - 1,
              ers_root := (ers_root st)[k := ers_root st ! unat (ers_num st - 1)],
              objs := (objs st)(h := None), allocated := m\<rparr>"
      by auto
    from wf have len: "length (ers_root st) = unat ERS_ROOT_SIZE" and le: "ers_num st \<le> ERS_ROOT_SIZE"
      and dist: "distinct (registered st)" and nn: "NULL \<notin> set (registered st)"
      and dm: "dom (objs st) = set (registered st)"
      and invs: "\<forall>q \<in> set (registered st). \<exists>obj. objs st q = Some obj \<and> ers_inv obj"
      and sizes: "distinct (map (\<lambda>q. map_option size_ers (objs st q)) (registered st))"
      by (simp_all add: wf_state_def)
    let ?ys = "butlast ((registered st)[k := last (registered st)])"
    have reg: "registered st' = ?ys"
      using root_remove_registered(2) [OF wf k] by (simp add: s registered_def)
    note sr = swap_remove [OF dist k(1)]
    have setys: "set ?ys = set (registered st) - {h}"
      using sr(2) k(2) by simp
    have o: "objs st' = (objs st)(h := None)"
      by (simp add: s)
    have 1: "length (ers_root st') = unat ERS_ROOT_SIZE"
      by (simp add: s len)
    have "ers_num st - 1 \<le> ers_num st"
      using k(1) le len by (simp add: word_le_nat_alt unat_minus_one unat_eq_zero [symmetric] registered_def)
    with le have 2: "ers_num st' \<le> ERS_ROOT_SIZE"
      by (simp add: s)
    have 3: "distinct (registered st')"
      using sr(1) by (simp add: reg)
    have 4: "NULL \<notin> set (registered st')"
      using nn by (simp add: reg setys)
    have 5: "dom (objs st') = set (registered st')"
      using dm by (auto simp: reg setys o)
    have 6: "\<forall>q \<in> set (registered st'). \<exists>obj. objs st' q = Some obj \<and> ers_inv obj"
      using invs by (simp add: reg setys o)
    have "map (\<lambda>q. map_option size_ers (objs st' q)) ?ys =
        map (\<lambda>q. map_option size_ers (objs st q)) ?ys"
      by (rule map_cong) (simp_all add: setys o)
    also have "\<dots> = butlast ((map (\<lambda>q. map_option size_ers (objs st q)) (registered st))
        [k := last (map (\<lambda>q. map_option size_ers (objs st q)) (registered st))])"
      using k(1) by (cases "registered st = []") (simp_all add: map_butlast map_update last_map)
    finally have 7: "distinct (map (\<lambda>q. map_option size_ers (objs st' q)) (registered st'))"
      using swap_remove(1) [OF sizes, of k] k(1) by (simp add: reg)
    from 1 2 3 4 5 6 7 show ?thesis
      unfolding wf_state_def by blast
  qed
qed

subsection \<open>Forced destruction, and every reachable state is well formed\<close>

lemma destroy_all_loop_result:
  assumes "unat (ers_num st) \<le> length (ers_root st)"
    and "distinct (registered st)"
    and "\<forall>j. i \<le> j \<and> j < unat (ers_num st) \<longrightarrow>
      (\<exists>obj. objs st (ers_root st ! j) = Some obj \<and> ers_inv obj)"
  shows "\<exists>st'. destroy_all_loop i st = Inr st' \<and>
    ers_root st' = ers_root st \<and> ers_num st' = ers_num st \<and> ll_next st' = ll_next st \<and>
    (\<forall>p. objs st' p = (if p \<in> set (drop i (registered st)) then None else objs st p)) \<and>
    (\<forall>p. allocated st' p =
      (if \<exists>j. i \<le> j \<and> j < unat (ers_num st) \<and>
            p \<in> owned (ers_root st ! j) (the (objs st (ers_root st ! j)))
       then None else allocated st p))"
  using assms
proof (induction i st rule: destroy_all_loop.induct)
  case (1 i st)
  show ?case
  proof (cases "i < unat (ers_num st)")
    case False
    then have "drop i (registered st) = []"
      by (simp add: registered_def)
    with False show ?thesis
      by (subst destroy_all_loop.simps) auto
  next
    case True
    with "1.prems"(1) have len: "\<not> length (ers_root st) \<le> i" by simp
    from True "1.prems"(3) obtain obj where obj: "objs st (ers_root st ! i) = Some obj"
      and inv: "ers_inv obj"
      by blast
    from release_manager_result [OF inv, of "ers_root st ! i" "allocated st"] obtain m where
      r: "release_manager (ers_root st ! i) obj (allocated st) = Inr m"
      and m: "\<forall>p. m p = (if p \<in> owned (ers_root st ! i) obj then None else allocated st p)"
      by blast
    let ?st1 = "st\<lparr>objs := (objs st)(ers_root st ! i := None), allocated := m\<rparr>"
    have reg1: "registered ?st1 = registered st"
      by (simp add: registered_def)
    have lr: "length (registered st) = unat (ers_num st)"
      using "1.prems"(1) by (simp add: registered_def)
    have nth: "registered st ! j = ers_root st ! j" if "j < unat (ers_num st)" for j
      using that by (simp add: registered_def)
    have diff: "ers_root st ! j \<noteq> ers_root st ! i" if "Suc i \<le> j" "j < unat (ers_num st)" for j
    proof -
      from that True lr have "registered st ! j \<noteq> registered st ! i"
        using "1.prems"(2) by (simp add: nth_eq_iff_index_eq)
      with that True show ?thesis by (simp add: nth)
    qed
    have keep: "objs ?st1 (ers_root st ! j) = objs st (ers_root st ! j)"
      if "Suc i \<le> j" "j < unat (ers_num st)" for j
      using diff [OF that] by simp
    have p3: "\<forall>j. Suc i \<le> j \<and> j < unat (ers_num ?st1) \<longrightarrow>
      (\<exists>obj. objs ?st1 (ers_root ?st1 ! j) = Some obj \<and> ers_inv obj)"
      using "1.prems"(3) diff by simp
    have p1: "unat (ers_num ?st1) \<le> length (ers_root ?st1)"
      using "1.prems"(1) by simp
    have p2: "distinct (registered ?st1)"
      using "1.prems"(2) by (simp only: reg1)
    from "1.IH" [OF True len obj r p1 p2 p3] obtain st' where
      d: "destroy_all_loop (Suc i) ?st1 = Inr st'"
      and f1: "ers_root st' = ers_root ?st1" and f2: "ers_num st' = ers_num ?st1"
      and f3: "ll_next st' = ll_next ?st1"
      and f4: "\<forall>p. objs st' p = (if p \<in> set (drop (Suc i) (registered ?st1)) then None
          else objs ?st1 p)"
      and f5: "\<forall>p. allocated st' p =
        (if \<exists>j. Suc i \<le> j \<and> j < unat (ers_num ?st1) \<and>
              p \<in> owned (ers_root ?st1 ! j) (the (objs ?st1 (ers_root ?st1 ! j)))
         then None else allocated ?st1 p)"
      by blast
    from f1 have e1: "ers_root st' = ers_root st" by simp
    from f2 have e2: "ers_num st' = ers_num st" by simp
    from f3 have e3: "ll_next st' = ll_next st" by simp
    from f4 have e4: "\<forall>p. objs st' p = (if p \<in> set (drop (Suc i) (registered st)) then None
          else objs ?st1 p)"
      unfolding reg1 .
    have e5: "\<forall>p. allocated st' p =
        (if \<exists>j. Suc i \<le> j \<and> j < unat (ers_num st) \<and>
              p \<in> owned (ers_root st ! j) (the (objs ?st1 (ers_root st ! j)))
         then None else m p)"
    proof
      fix p
      have eqs: "ers_num ?st1 = ers_num st" "ers_root ?st1 = ers_root st" "allocated ?st1 = m"
        by simp_all
      from f5 [rule_format, of p] show "allocated st' p =
        (if \<exists>j. Suc i \<le> j \<and> j < unat (ers_num st) \<and>
              p \<in> owned (ers_root st ! j) (the (objs ?st1 (ers_root st ! j)))
         then None else m p)"
        unfolding eqs .
    qed
    have step: "destroy_all_loop i st = Inr st'"
      using True len obj r d by (subst destroy_all_loop.simps) simp
    have dr: "drop i (registered st) = ers_root st ! i # drop (Suc i) (registered st)"
      using True lr nth [OF True] by (simp add: Cons_nth_drop_Suc [symmetric])
    have o: "\<forall>p. objs st' p = (if p \<in> set (drop i (registered st)) then None else objs st p)"
      using e4 by (simp add: dr)
    have a: "allocated st' p =
      (if \<exists>j. i \<le> j \<and> j < unat (ers_num st) \<and>
            p \<in> owned (ers_root st ! j) (the (objs st (ers_root st ! j)))
       then None else allocated st p)" for p
    proof -
      have A: "(\<exists>j. i \<le> j \<and> j < unat (ers_num st) \<and>
            p \<in> owned (ers_root st ! j) (the (objs st (ers_root st ! j)))) \<longleftrightarrow>
          p \<in> owned (ers_root st ! i) obj \<or>
          (\<exists>j. Suc i \<le> j \<and> j < unat (ers_num st) \<and>
            p \<in> owned (ers_root st ! j) (the (objs st (ers_root st ! j))))"
        (is "?L \<longleftrightarrow> ?R")
      proof
        assume ?L
        then obtain j where j: "i \<le> j" "j < unat (ers_num st)"
          "p \<in> owned (ers_root st ! j) (the (objs st (ers_root st ! j)))" by blast
        show ?R
        proof (cases "j = i")
          case True
          with j obj show ?thesis by simp
        next
          case False
          with j have "Suc i \<le> j" by simp
          with j show ?thesis by blast
        qed
      next
        assume ?R
        then show ?L
        proof
          assume "p \<in> owned (ers_root st ! i) obj"
          with True obj show ?L by (intro exI [of _ i]) simp
        next
          assume "\<exists>j. Suc i \<le> j \<and> j < unat (ers_num st) \<and>
            p \<in> owned (ers_root st ! j) (the (objs st (ers_root st ! j)))"
          then show ?L by (meson Suc_leD)
        qed
      qed
      have B: "(\<exists>j. Suc i \<le> j \<and> j < unat (ers_num st) \<and>
              p \<in> owned (ers_root st ! j) (the (objs ?st1 (ers_root st ! j)))) \<longleftrightarrow>
          (\<exists>j. Suc i \<le> j \<and> j < unat (ers_num st) \<and>
            p \<in> owned (ers_root st ! j) (the (objs st (ers_root st ! j))))"
        using keep by (metis (no_types, lifting))
      show ?thesis
        unfolding A using e5 [rule_format, of p] m [rule_format, of p] unfolding B by auto
    qed
    from step e1 e2 e3 o a show ?thesis by blast
  qed
qed


lemma force_destroy_all_result:
  assumes wf: "wf_state st"
  shows "\<exists>st'. ers_force_destroy_all st = Inr st' \<and> ers_num st' = 0 \<and>
    ers_root st' = ers_root st \<and> ll_next st' = ll_next st \<and>
    (\<forall>p. objs st' p = (if p \<in> set (registered st) then None else objs st p)) \<and>
    (\<forall>p. allocated st' p =
      (if \<exists>h \<in> set (registered st). p \<in> owned h (the (objs st h))
       then None else allocated st p))"
proof -
  from wf have len: "length (ers_root st) = unat ERS_ROOT_SIZE" and le: "ers_num st \<le> ERS_ROOT_SIZE"
    and dist: "distinct (registered st)"
    and invs: "\<forall>q \<in> set (registered st). \<exists>obj. objs st q = Some obj \<and> ers_inv obj"
    by (simp_all add: wf_state_def)
  from le len have nl: "unat (ers_num st) \<le> length (ers_root st)"
    by (simp add: word_le_nat_alt)
  then have lr: "length (registered st) = unat (ers_num st)"
    by (simp add: registered_def)
  have nth: "registered st ! j = ers_root st ! j" if "j < unat (ers_num st)" for j
    using that by (simp add: registered_def)
  have p3: "\<forall>j. 0 \<le> j \<and> j < unat (ers_num st) \<longrightarrow>
      (\<exists>obj. objs st (ers_root st ! j) = Some obj \<and> ers_inv obj)"
  proof (intro allI impI)
    fix j assume j: "0 \<le> j \<and> j < unat (ers_num st)"
    then have "j < length (registered st)"
      using lr by simp
    then have "registered st ! j \<in> set (registered st)"
      by (rule nth_mem)
    moreover have "registered st ! j = ers_root st ! j"
      using j nth by simp
    ultimately have "ers_root st ! j \<in> set (registered st)"
      by simp
    with invs show "\<exists>obj. objs st (ers_root st ! j) = Some obj \<and> ers_inv obj"
      by auto
  qed
  from destroy_all_loop_result [OF nl dist p3] obtain st1 where
    d: "destroy_all_loop 0 st = Inr st1"
    and e1: "ers_root st1 = ers_root st" and e3: "ll_next st1 = ll_next st"
    and e4: "\<forall>p. objs st1 p = (if p \<in> set (drop 0 (registered st)) then None else objs st p)"
    and e5: "\<forall>p. allocated st1 p =
      (if \<exists>j. 0 \<le> j \<and> j < unat (ers_num st) \<and>
            p \<in> owned (ers_root st ! j) (the (objs st (ers_root st ! j)))
       then None else allocated st p)"
    by blast
  have idx: "(\<exists>j. j < unat (ers_num st) \<and>
            p \<in> owned (ers_root st ! j) (the (objs st (ers_root st ! j)))) \<longleftrightarrow>
      (\<exists>h \<in> set (registered st). p \<in> owned h (the (objs st h)))" (is "?L \<longleftrightarrow> ?R") for p
  proof
    assume ?L
    then obtain j where j: "j < unat (ers_num st)"
      "p \<in> owned (ers_root st ! j) (the (objs st (ers_root st ! j)))" by blast
    then have "ers_root st ! j \<in> set (registered st)"
      using lr nth [of j] by (metis nth_mem)
    with j show ?R by blast
  next
    assume ?R
    then obtain h where h: "h \<in> set (registered st)" "p \<in> owned h (the (objs st h))" by blast
    then obtain j where "j < length (registered st)" "registered st ! j = h"
      by (auto simp: in_set_conv_nth)
    with h lr nth [of j] show ?L
      by (intro exI [of _ j]) simp
  qed
  have f: "ers_force_destroy_all st = Inr (st1\<lparr>ers_num := 0\<rparr>)"
    by (simp add: ers_force_destroy_all_def d)
  show ?thesis
  proof (intro exI [of _ "st1\<lparr>ers_num := 0\<rparr>"] conjI)
    show "ers_force_destroy_all st = Inr (st1\<lparr>ers_num := 0\<rparr>)" by (fact f)
    show "ers_num (st1\<lparr>ers_num := 0\<rparr>) = 0" by simp
    show "ers_root (st1\<lparr>ers_num := 0\<rparr>) = ers_root st" by (simp add: e1)
    show "ll_next (st1\<lparr>ers_num := 0\<rparr>) = ll_next st" by (simp add: e3)
    show "\<forall>p. objs (st1\<lparr>ers_num := 0\<rparr>) p =
        (if p \<in> set (registered st) then None else objs st p)"
      using e4 by simp
    show "\<forall>p. allocated (st1\<lparr>ers_num := 0\<rparr>) p =
      (if \<exists>h \<in> set (registered st). p \<in> owned h (the (objs st h))
       then None else allocated st p)"
      using e5 by (simp add: idx)
  qed
qed

lemma wf_destroy_all:
  assumes wf: "wf_state st" and d: "ers_force_destroy_all st = Inr st'"
  shows "wf_state st'"
proof -
  from force_destroy_all_result [OF wf] d have n: "ers_num st' = 0"
    and r: "ers_root st' = ers_root st"
    and o: "\<forall>p. objs st' p = (if p \<in> set (registered st) then None else objs st p)"
    by auto
  from wf have dm: "dom (objs st) = set (registered st)"
    and len: "length (ers_root st) = unat ERS_ROOT_SIZE"
    by (simp_all add: wf_state_def)
  have "objs st' p = None" for p
    using o dm by (cases "p \<in> set (registered st)") auto
  then have "dom (objs st') = {}"
    by auto
  then show ?thesis
    by (simp add: wf_state_def registered_def n r len)
qed

lemma wf_start:
  assumes "ers_num st = 0" and "objs st = Map.empty" and "length (ers_root st) = unat ERS_ROOT_SIZE"
  shows "wf_state st"
  using assms by (simp add: wf_state_def registered_def)

lemma reachable_wf:
  assumes "reachable st"
  shows "wf_state st"
  using assms
proof (induction rule: reachable.induct)
  case (start st)
  then show ?case by (rule wf_start)
next
  case (new st p al lk sz h st')
  then show ?case by (blast intro: wf_new)
next
  case (alloc st q b h e st')
  then show ?case by (blast intro: wf_alloc)
next
  case (free st h e st')
  then show ?case by (blast intro: wf_free)
next
  case (destroy st h w st')
  then show ?case by (blast intro: wf_destroy)
next
  case (destroy_all st st')
  then show ?case by (blast intro: wf_destroy_all)
qed

subsection \<open>The small run\<close>

lemma example_acquired_run:
  "ers_new 8 8 5 4096 ers_initial = Inr (4096, example_acquired)"
  by (simp add: ers_new_def ers_new_lookup.simps aligned_size_def ers_initial_def
      ERS_ROOT_SIZE_def example_acquired_def aMalloc_def)

lemma example_block_run:
  "ers_obj_alloc_entry 8192 65536 4096 example_acquired = Inr (98296, example_block)"
proof -
  have r3: "replicate 3 NULL = [NULL, NULL, NULL]"
    by (simp add: numeral_3_eq_3)
  show ?thesis
    by (simp add: ers_obj_alloc_entry_def expand_blocks_def example_acquired_def example_block_def
        UINT32_MAX_def ERS_BLOCK_ENTRIES_def RECREATE_def RECREATE_cells_def aMalloc_def aFree_def
        Let_def fun_upd_twist r3)
qed

lemma reachable_example_acquired: "reachable example_acquired"
proof -
  have "reachable ers_initial"
    by (rule reachable.start) (simp_all add: ers_initial_def ERS_ROOT_SIZE_def)
  moreover have "4096 \<notin> dom (objs ers_initial)"
    by (simp add: ers_initial_def)
  ultimately show ?thesis
    using example_acquired_run by (rule reachable.new)
qed

lemma reachable_example_block: "reachable example_block"
  using reachable_example_acquired example_block_run by (rule reachable.alloc)

subsection \<open>A registered size is found again\<close>

lemma lookup_registered:
  assumes wf: "wf_state st" and obj: "objs st h = Some obj"
  shows "ers_new_lookup (size_ers obj) 0 st = Inr (Some h)"
proof -
  from wf have len: "length (ers_root st) = unat ERS_ROOT_SIZE" and le: "ers_num st \<le> ERS_ROOT_SIZE"
    and invs: "\<forall>q \<in> set (registered st). \<exists>obj. objs st q = Some obj \<and> ers_inv obj"
    and sizes: "distinct (map (\<lambda>q. map_option size_ers (objs st q)) (registered st))"
    by (simp_all add: wf_state_def)
  from le len have nl: "unat (ers_num st) \<le> length (ers_root st)"
    by (simp add: word_le_nat_alt)
  then have lr: "length (registered st) = unat (ers_num st)"
    by (simp add: registered_def)
  have nth: "registered st ! j = ers_root st ! j" if "j < unat (ers_num st)" for j
    using that by (simp add: registered_def)
  from wf_live_inv(2) [OF wf obj] obtain k where k: "k < length (registered st)"
    "registered st ! k = h"
    by (auto simp: in_set_conv_nth)
  have kn: "k < unat (ers_num st)" using k lr by simp
  have hk: "ers_root st ! k = h" using k kn nth by simp
  have before: "\<forall>j. 0 \<le> j \<and> j < k \<longrightarrow>
      (\<exists>ob. objs st (ers_root st ! j) = Some ob \<and> size_ers ob \<noteq> size_ers obj)"
  proof (intro allI impI)
    fix j assume j: "0 \<le> j \<and> j < k"
    then have jl: "j < length (registered st)" using k by simp
    then have "registered st ! j \<in> set (registered st)" by (rule nth_mem)
    with invs obtain ob where ob: "objs st (registered st ! j) = Some ob" by blast
    let ?f = "\<lambda>q. map_option size_ers (objs st q)"
    have "map ?f (registered st) ! j \<noteq> map ?f (registered st) ! k"
      using sizes jl k(1) j by (simp add: nth_eq_iff_index_eq del: nth_map)
    then have "size_ers ob \<noteq> size_ers obj"
      using jl k ob obj by simp
    moreover have "registered st ! j = ers_root st ! j"
      using jl lr nth by simp
    ultimately show "\<exists>ob. objs st (ers_root st ! j) = Some ob \<and> size_ers ob \<noteq> size_ers obj"
      using ob by auto
  qed
  have "ers_new_lookup (size_ers obj) 0 st = Inr (Some (ers_root st ! k))"
    by (rule lookup_found [OF _ kn nl _ _ before]) (simp_all add: hk obj)
  then show ?thesis by (simp add: hk)
qed

subsection \<open>The branch that takes a new block\<close>

lemma expand_blocks_cases:
  assumes "\<not> (num obj = max_ers obj \<and> max_ers obj = UINT32_MAX)" and "q \<noteq> NULL"
  shows "expand_blocks q obj m =
    Inr (if num obj = max_ers obj
         then (obj\<lparr>max_ers := push_bit 2 (max_ers obj) + 3, blocks_ptr := q,
                 blocks := RECREATE_cells (blocks obj) (unat (push_bit 2 (max_ers obj) + 3))\<rparr>,
               RECREATE (blocks_ptr obj) q (BlockArray (push_bit 2 (max_ers obj) + 3)) m)
         else (obj, m))"
  using assms by (simp add: expand_blocks_def Let_def)

lemma alloc_entry_new_block:
  assumes inv: "ers_inv obj" and obj: "objs st h = Some obj" and h: "h \<noteq> NULL"
    and r: "reuse obj = NULL" and f: "free obj = 0"
    and ok: "\<not> (num obj = max_ers obj \<and> max_ers obj = UINT32_MAX)"
    and q: "q \<noteq> NULL" and b: "b \<noteq> NULL"
  shows "\<exists>obj1 m1. expand_blocks q obj (allocated st) = Inr (obj1, m1) \<and>
    ers_inv obj1 \<and> num obj1 = num obj \<and> size_ers obj1 = size_ers obj \<and>
    unat (num obj) < length (blocks obj1) \<and>
    take (unat (num obj)) (blocks obj1) = take (unat (num obj)) (blocks obj) \<and>
    ers_obj_alloc_entry q b h st =
      Inr (b + unat ((ERS_BLOCK_ENTRIES - 1) * size_ers obj),
           st\<lparr>objs := (objs st)(h \<mapsto> obj1\<lparr>blocks := (blocks obj1)[unat (num obj) := b],
                 free := ERS_BLOCK_ENTRIES - 1, num := num obj + 1\<rparr>),
              allocated := aMalloc b (Block (size_ers obj * ERS_BLOCK_ENTRIES)) m1\<rparr>)"
proof -
  obtain obj1 m1 where e: "expand_blocks q obj (allocated st) = Inr (obj1, m1)"
    using expand_blocks_cases [OF ok q] by (cases "num obj = max_ers obj") simp_all
  note x = expand_blocks_inv [OF e inv]
  from x(1) have n: "num obj1 \<le> max_ers obj1" and l: "length (blocks obj1) = unat (max_ers obj1)"
    by (simp_all add: ers_inv_def)
  from num_below_max(2) [OF n x(2)] l x(3) have lt: "unat (num obj) < length (blocks obj1)"
    by simp
  from inv have l0: "unat (num obj) \<le> length (blocks obj)"
    by (simp add: ers_inv_def word_le_nat_alt)
  have tk: "take (unat (num obj)) (blocks obj1) = take (unat (num obj)) (blocks obj)"
  proof (cases "num obj = max_ers obj")
    case False
    with e ok q show ?thesis by (simp add: expand_blocks_cases)
  next
    case True
    with e ok q have "blocks obj1 = RECREATE_cells (blocks obj) (unat (push_bit 2 (max_ers obj) + 3))"
      by (auto simp: expand_blocks_cases)
    moreover from inv have "max_ers obj \<in> set capacities" by (simp add: ers_inv_def)
    from next_capacity(2) [OF this] ok True
    have "unat (num obj) \<le> unat (push_bit 2 (max_ers obj) + 3)" by simp
    ultimately show ?thesis
      using l0 by (simp add: RECREATE_cells_def min_def)
  qed
  have "ers_obj_alloc_entry q b h st =
      Inr (b + unat ((ERS_BLOCK_ENTRIES - 1) * size_ers obj),
           st\<lparr>objs := (objs st)(h \<mapsto> obj1\<lparr>blocks := (blocks obj1)[unat (num obj) := b],
                 free := ERS_BLOCK_ENTRIES - 1, num := num obj + 1\<rparr>),
              allocated := aMalloc b (Block (size_ers obj * ERS_BLOCK_ENTRIES)) m1\<rparr>)"
    using h obj r f b e lt x(3,4) by (simp add: ers_obj_alloc_entry_def Let_def)
  with e x(1,3,4) lt tk show ?thesis by blast
qed

subsection \<open>A manager for a size that is not registered; the report\<close>

lemma ers_new_creates:
  assumes "sz0 \<noteq> 0" and "al \<noteq> 0" and "p \<noteq> NULL"
    and "ers_new_lookup (aligned_size al lk sz0) 0 st = Inr None"
    and "ers_num st \<noteq> ERS_ROOT_SIZE" and "unat (ers_num st) < length (ers_root st)"
  shows "ers_new al lk sz0 p st =
    Inr (p, st\<lparr>objs := (objs st)(p \<mapsto>
                \<lparr>reuse = NULL, blocks_ptr = NULL, blocks = [], free = 0, num = 0,
                 max_ers = 0, destroy = 1, size_ers = aligned_size al lk sz0\<rparr>),
              allocated := aMalloc p Manager (allocated st),
              ers_root := (ers_root st)[unat (ers_num st) := p],
              ers_num := ers_num st + 1\<rparr>)"
  using assms by (simp add: ers_new_def Let_def)

lemma wf_lookup_absent:
  assumes wf: "wf_state st"
    and none: "\<forall>q \<in> set (registered st). \<forall>ob. objs st q = Some ob \<longrightarrow> size_ers ob \<noteq> sz"
  shows "ers_new_lookup sz 0 st = Inr None"
proof -
  from wf have len: "length (ers_root st) = unat ERS_ROOT_SIZE" and le: "ers_num st \<le> ERS_ROOT_SIZE"
    and invs: "\<forall>q \<in> set (registered st). \<exists>obj. objs st q = Some obj \<and> ers_inv obj"
    by (simp_all add: wf_state_def)
  from le len have nl: "unat (ers_num st) \<le> length (ers_root st)"
    by (simp add: word_le_nat_alt)
  then have lr: "length (registered st) = unat (ers_num st)"
    by (simp add: registered_def)
  have "\<forall>j. 0 \<le> j \<and> j < unat (ers_num st) \<longrightarrow>
      (\<exists>ob. objs st (ers_root st ! j) = Some ob \<and> size_ers ob \<noteq> sz)"
  proof (intro allI impI)
    fix j assume j: "0 \<le> j \<and> j < unat (ers_num st)"
    then have "j < length (registered st)" using lr by simp
    then have "registered st ! j \<in> set (registered st)" by (rule nth_mem)
    moreover have "registered st ! j = ers_root st ! j"
      using j by (simp add: registered_def)
    ultimately have m: "ers_root st ! j \<in> set (registered st)" by simp
    with invs obtain ob where "objs st (ers_root st ! j) = Some ob" by blast
    with none m show "\<exists>ob. objs st (ers_root st ! j) = Some ob \<and> size_ers ob \<noteq> sz"
      by blast
  qed
  with nl show ?thesis by (rule lookup_not_found)
qed

lemma wf_new_manager:
  assumes wf: "wf_state st" and "sz0 \<noteq> 0" and "al \<noteq> 0" and "p \<noteq> NULL"
    and none: "\<forall>q \<in> set (registered st). \<forall>ob. objs st q = Some ob \<longrightarrow>
      size_ers ob \<noteq> aligned_size al lk sz0"
    and room: "ers_num st \<noteq> ERS_ROOT_SIZE"
  shows "\<exists>st'. ers_new al lk sz0 p st = Inr (p, st') \<and>
    objs st' p = Some \<lparr>reuse = NULL, blocks_ptr = NULL, blocks = [], free = 0, num = 0,
                 max_ers = 0, destroy = 1, size_ers = aligned_size al lk sz0\<rparr> \<and>
    registered st' = registered st @ [p]"
proof -
  from wf have len: "length (ers_root st) = unat ERS_ROOT_SIZE" and le: "ers_num st \<le> ERS_ROOT_SIZE"
    by (simp_all add: wf_state_def)
  from root_index_bound(1) [OF le room] len have lt: "unat (ers_num st) < length (ers_root st)"
    by (simp add: ERS_ROOT_SIZE_def)
  note n = ers_new_creates [OF assms(2-4) wf_lookup_absent [OF wf none] room lt]
  let ?st' = "st\<lparr>objs := (objs st)(p \<mapsto>
                \<lparr>reuse = NULL, blocks_ptr = NULL, blocks = [], free = 0, num = 0,
                 max_ers = 0, destroy = 1, size_ers = aligned_size al lk sz0\<rparr>),
              allocated := aMalloc p Manager (allocated st),
              ers_root := (ers_root st)[unat (ers_num st) := p],
              ers_num := ers_num st + 1\<rparr>"
  have "registered ?st' = registered st @ [p]"
    by (rule registered_append [OF len le room]) simp_all
  with n show ?thesis
    by (intro exI [of _ ?st']) simp
qed


lemma registered_example_block: "registered example_block = [4096]"
proof -
  have "replicate 256 NULL = NULL # replicate 255 NULL"
    by (simp add: replicate_Suc [symmetric] del: replicate_Suc)
  then show ?thesis
    by (simp add: registered_def example_block_def)
qed

lemma report_managers_total:
  assumes "unat (ers_num st) \<le> length (ers_root st)"
    and "\<forall>j. i \<le> j \<and> j < unat (ers_num st) \<longrightarrow> (\<exists>obj. objs st (ers_root st ! j) = Some obj)"
  shows "\<exists>rs. report_managers i st = Inr rs \<and> length rs = unat (ers_num st) - i"
  using assms
proof (induction i st rule: report_managers.induct)
  case (1 i st)
  show ?case
  proof (cases "i < unat (ers_num st)")
    case False
    then show ?thesis
      by (subst report_managers.simps) simp
  next
    case True
    with "1.prems"(1) have len: "\<not> length (ers_root st) \<le> i" by simp
    from True "1.prems"(2) obtain obj where obj: "objs st (ers_root st ! i) = Some obj"
      by blast
    have "\<forall>j. Suc i \<le> j \<and> j < unat (ers_num st) \<longrightarrow>
        (\<exists>obj. objs st (ers_root st ! j) = Some obj)"
      using "1.prems"(2) by simp
    from "1.IH" [OF True len obj "1.prems"(1) this] obtain rs where
      rs: "report_managers (Suc i) st = Inr rs" "length rs = unat (ers_num st) - Suc i"
      by blast
    have "report_managers i st = Inr (report_manager (ll_next st) obj # rs)"
      using True len obj rs(1) by (subst report_managers.simps) simp
    moreover have "length (report_manager (ll_next st) obj # rs) = unat (ers_num st) - i"
      using rs(2) True by simp
    ultimately show ?thesis by blast
  qed
qed

lemma example_shared_run:
  "ers_new 8 8 7 12288 example_block = Inr (4096, example_shared)"
proof -
  have rt: "ers_root example_block ! 0 = 4096" "ers_num example_block = 1"
    "length (ers_root example_block) = 256"
    by (simp_all add: example_block_def)
  have o: "objs example_block 4096 =
      Some \<lparr>reuse = NULL, blocks_ptr = 8192, blocks = [65536, NULL, NULL], free = 4095,
        num = 1, max_ers = 3, destroy = 1, size_ers = 8\<rparr>"
    by (simp add: example_block_def)
  have l: "ers_new_lookup 8 0 example_block = Inr (Some 4096)"
    by (simp add: ers_new_lookup.simps rt o)
  show ?thesis
    by (simp add: ers_new_def aligned_size_def l o example_shared_def) (simp add: example_block_def)
qed

lemma reachable_example_shared: "reachable example_shared"
proof -
  have "12288 \<notin> dom (objs example_block)"
    by (simp add: example_block_def)
  with reachable_example_block show ?thesis
    using example_shared_run by (rule reachable.new)
qed

subsection \<open>The size of the entries, where it does not wrap\<close>

lemma round_up_nat:
  fixes m a :: nat
  assumes "0 < a"
  shows "(m + a - 1) div a * a = (if m mod a = 0 then m else m + (a - m mod a))"
proof (cases "m mod a = 0")
  case True
  then obtain k where k: "m = a * k" by auto
  define x where "x = a - 1"
  have x: "x < a" using assms by (simp add: x_def)
  then have "(a * k + x) div a = k"
    by simp
  moreover have "m + a - 1 = a * k + x"
    using assms k by (simp add: x_def)
  ultimately have "(m + a - 1) div a * a = m"
    using k by simp
  with True show ?thesis by simp
next
  case False
  define k r where "k = m div a" and "r = m mod a"
  have m: "m = a * k + r" and r: "0 < r" "r < a"
    using False assms by (simp_all add: k_def r_def)
  define y where "y = r - 1"
  have y: "y < a" "r = Suc y" using r by (simp_all add: y_def)
  have "m + a - 1 = a * (k + 1) + y"
    using m y by simp
  moreover have "(a * (k + 1) + y) div a = k + 1"
    using y(1) by (simp del: mult_Suc_right add_Suc_right)
  ultimately have "(m + a - 1) div a * a = a * k + a"
    by (simp add: algebra_simps)
  also have "\<dots> = m + (a - r)"
    using m r by simp
  finally show ?thesis using False by (simp add: r_def)
qed

lemma aligned_size_spec:
  assumes al: "al \<noteq> 0"
    and fits: "spec_entry_size (unat al) (unat lk) (unat sz) < 2 ^ 32"
  shows "unat (aligned_size al lk sz) = spec_entry_size (unat al) (unat lk) (unat sz)"
proof -
  define s1 where "s1 = (if sz < lk then lk else sz)"
  have m: "unat s1 = max (unat sz) (unat lk)"
    by (auto simp: s1_def word_less_nat_alt max_def)
  from al have a: "0 < unat al"
    by (simp add: unat_gt_0)
  have md: "unat (s1 mod al) = unat s1 mod unat al"
    by (rule unat_mod)
  note ru = round_up_nat [OF a, of "unat s1"]
  show ?thesis
  proof (cases "s1 mod al = 0")
    case True
    then have "unat s1 mod unat al = 0"
      using md by simp
    with ru True show ?thesis
      by (simp add: aligned_size_def s1_def [symmetric] spec_entry_size_def m [symmetric])
  next
    case False
    then have nz: "unat s1 mod unat al \<noteq> 0"
      using md by (simp add: unat_eq_zero [symmetric])
    have "s1 mod al < al"
      using al by (simp add: word_mod_less_divisor word_greater_zero_iff)
    then have "s1 mod al \<le> al" by simp
    then have sub: "unat (al - s1 mod al) = unat al - unat s1 mod unat al"
      by (simp add: unat_sub md)
    from ru nz have sp: "spec_entry_size (unat al) (unat lk) (unat sz) =
        unat s1 + (unat al - unat s1 mod unat al)"
      by (simp add: spec_entry_size_def m [symmetric])
    with fits have "unat s1 + unat (al - s1 mod al) < 2 ^ LENGTH(32)"
      by (simp add: sub)
    then have "unat (s1 + (al - s1 mod al)) = unat s1 + unat (al - s1 mod al)"
      by (rule unat_add_lem [THEN iffD1])
    with False sp sub show ?thesis
      by (simp add: aligned_size_def s1_def [symmetric])
  qed
qed

lemma ers_new_entry_size:
  assumes "wf_state st" and "sz0 \<noteq> 0" and "ers_new al lk sz0 p st = Inr (h, st')"
  shows "ers_obj_entry_size h st' = Inr (aligned_size al lk sz0)"
proof -
  from assms(2,3) have al: "al \<noteq> 0"
    by (auto simp: ers_new_def split: if_splits)
  show ?thesis
  proof (cases "ers_new_lookup (aligned_size al lk sz0) 0 st")
    case (Inl e)
    with assms al show ?thesis by (simp add: ers_new_def)
  next
    case (Inr r)
    show ?thesis
    proof (cases r)
      case None
      with assms(2,3) al Inr show ?thesis
        by (auto simp: ers_new_def ers_obj_entry_size_def Let_def split: if_splits)
    next
      case (Some g)
      from lookup_Some [OF Inr [unfolded Some]] obtain obj where
        obj: "objs st g = Some obj" "size_ers obj = aligned_size al lk sz0"
        by blast
      note lv = wf_live_inv [OF assms(1) obj(1)]
      from assms(2,3) al Inr Some obj lv(3) show ?thesis
        by (auto simp: ers_new_def ers_obj_entry_size_def)
    qed
  qed
qed

lemma ers_new_entry_size_spec:
  assumes "wf_state st" and "sz0 \<noteq> 0" and "ers_new al lk sz0 p st = Inr (h, st')"
    and "spec_entry_size (unat al) (unat lk) (unat sz0) < 2 ^ 32"
  shows "\<exists>w. ers_obj_entry_size h st' = Inr w \<and>
    unat w = spec_entry_size (unat al) (unat lk) (unat sz0)"
proof -
  from assms(2,3) have "al \<noteq> 0"
    by (auto simp: ers_new_def split: if_splits)
  from aligned_size_spec [OF this assms(4)] ers_new_entry_size [OF assms(1-3)]
  show ?thesis by simp
qed

section \<open>Properties\<close>

subsection \<open>A request for size 0\<close>

text \<open>
  C1, as the code has it: \<^verbatim>\<open>ers_new\<close> called with size 0 shows an error that is not
  fatal and returns \<^verbatim>\<open>NULL\<close>; the process goes on, and the root array and every
  manager are as before the call.
\<close>

theorem ers_new_zero_returns_null:
  "ers_new al lk 0 p st = Inr (NULL, st)"
  by (simp add: ers_new_def)

text \<open>C1 as stated fails: in a fresh process, size 0 does not end in \<^verbatim>\<open>exit\<close>.\<close>

theorem ers_new_zero_not_fatal:
  "ers_new 8 8 0 4096 ers_initial = Inr (NULL, ers_initial) \<and>
   ers_new 8 8 0 4096 ers_initial \<noteq> Inl Exit"
  by (simp add: ers_new_def)

subsection \<open>The list of reusable entries is a stack\<close>

text \<open>
  C2: for a live manager \<open>h\<close> and two distinct entries \<open>A\<close> and \<open>B\<close>, freeing \<open>A\<close>, then
  \<open>B\<close>, and allocating twice returns \<open>B\<close>, then \<open>A\<close>. The two allocations take the
  entries from the list of reusable entries and touch nothing else: the manager is
  then as it was before the two frees, and no memory was allocated.
\<close>

theorem free_list_lifo:
  assumes "h \<noteq> NULL" and "objs st h = Some obj"
    and "A \<noteq> NULL" and "B \<noteq> NULL" and "A \<noteq> B"
  shows "\<exists>st1 st2 st3 st4.
    ers_obj_free_entry h A st = Inr st1 \<and>
    ers_obj_free_entry h B st1 = Inr st2 \<and>
    ers_obj_alloc_entry q1 b1 h st2 = Inr (B, st3) \<and>
    ers_obj_alloc_entry q2 b2 h st3 = Inr (A, st4) \<and>
    objs st4 h = Some obj \<and> allocated st4 = allocated st"
  using assms by (simp add: ers_obj_free_entry_def ers_obj_alloc_entry_def)

text \<open>In the small run, before the first block exists: two entries are freed and allocated again.\<close>

theorem free_list_lifo_witness:
  "objs example_acquired 4096 =
     Some \<lparr>reuse = NULL, blocks_ptr = NULL, blocks = [], free = 0, num = 0, max_ers = 0,
           destroy = 1, size_ers = 8\<rparr> \<and>
   (\<exists>st1 st2 st3 st4.
      ers_obj_free_entry 4096 100 example_acquired = Inr st1 \<and>
      ers_obj_free_entry 4096 200 st1 = Inr st2 \<and>
      ers_obj_alloc_entry 8192 65536 4096 st2 = Inr (200, st3) \<and>
      ers_obj_alloc_entry 8192 65536 4096 st3 = Inr (100, st4) \<and>
      objs st4 4096 =
        Some \<lparr>reuse = NULL, blocks_ptr = NULL, blocks = [], free = 0, num = 0, max_ers = 0,
              destroy = 1, size_ers = 8\<rparr> \<and>
      allocated st4 = allocated example_acquired)"
proof -
  have o: "objs example_acquired 4096 =
     Some \<lparr>reuse = NULL, blocks_ptr = NULL, blocks = [], free = 0, num = 0, max_ers = 0,
           destroy = 1, size_ers = 8\<rparr>"
    by (simp add: example_acquired_def)
  from free_list_lifo [OF _ o, of 100 200 8192 65536 8192 65536] o show ?thesis
    by simp
qed

subsection \<open>One manager for each size\<close>

text \<open>
  C3: in a well-formed state where a manager \<open>h\<close> handles the size that \<^verbatim>\<open>ers_new\<close>
  computes from the request, the call returns \<open>h\<close> itself, adds one to its count of
  instances (in 32-bit arithmetic) and changes nothing else: the root array and the
  number of managers are as before. Both handles are the address \<open>h\<close>, so an entry
  freed through the first is what the next allocation through the second returns.
\<close>

theorem acquire_shares_manager:
  assumes "wf_state st" and "sz0 \<noteq> 0" and "al \<noteq> 0"
    and "objs st h = Some obj" and "size_ers obj = aligned_size al lk sz0"
  shows "\<exists>st1.
    ers_new al lk sz0 p st = Inr (h, st1) \<and>
    objs st1 = (objs st)(h \<mapsto> obj\<lparr>destroy := destroy obj + 1\<rparr>) \<and>
    ers_root st1 = ers_root st \<and> ers_num st1 = ers_num st \<and>
    (\<forall>e q b. e \<noteq> NULL \<longrightarrow>
      (\<exists>st2 st3. ers_obj_free_entry h e st1 = Inr st2 \<and>
        ers_obj_alloc_entry q b h st2 = Inr (e, st3)))"
proof -
  note nz = wf_live_inv(3) [OF assms(1,4)]
  have l: "ers_new_lookup (aligned_size al lk sz0) 0 st = Inr (Some h)"
    using lookup_registered [OF assms(1,4)] by (simp add: assms(5))
  let ?st1 = "st\<lparr>objs := (objs st)(h \<mapsto> obj\<lparr>destroy := destroy obj + 1\<rparr>)\<rparr>"
  have n: "ers_new al lk sz0 p st = Inr (h, ?st1)"
    using assms(2-4) l by (simp add: ers_new_def)
  have share: "\<exists>st2 st3. ers_obj_free_entry h e ?st1 = Inr st2 \<and>
        ers_obj_alloc_entry q b h st2 = Inr (e, st3)" if "e \<noteq> NULL" for e q b
    using that nz by (simp add: ers_obj_free_entry_def ers_obj_alloc_entry_def)
  show ?thesis
    by (rule exI [of _ ?st1]) (use n share in simp)
qed

theorem acquire_shares_manager_witness:
  "wf_state example_acquired \<and>
   (\<exists>st1. ers_new 8 8 7 12288 example_acquired = Inr (4096, st1) \<and>
     objs st1 = (objs example_acquired)(4096 \<mapsto>
       \<lparr>reuse = NULL, blocks_ptr = NULL, blocks = [], free = 0, num = 0, max_ers = 0,
        destroy = 2, size_ers = 8\<rparr>) \<and>
     ers_root st1 = ers_root example_acquired \<and> ers_num st1 = ers_num example_acquired \<and>
     (\<exists>st2 st3. ers_obj_free_entry 4096 500 st1 = Inr st2 \<and>
        ers_obj_alloc_entry 0 0 4096 st2 = Inr (500, st3)))"
proof -
  have w: "wf_state example_acquired"
    using reachable_example_acquired by (rule reachable_wf)
  have o: "objs example_acquired 4096 =
      Some \<lparr>reuse = NULL, blocks_ptr = NULL, blocks = [], free = 0, num = 0, max_ers = 0,
        destroy = 1, size_ers = 8\<rparr>"
    by (simp add: example_acquired_def)
  have "\<exists>st1. ers_new 8 8 7 12288 example_acquired = Inr (4096, st1) \<and>
     objs st1 = (objs example_acquired)(4096 \<mapsto>
       \<lparr>reuse = NULL, blocks_ptr = NULL, blocks = [], free = 0, num = 0, max_ers = 0,
        destroy = 1, size_ers = 8\<rparr>\<lparr>destroy := 1 + 1\<rparr>) \<and>
     ers_root st1 = ers_root example_acquired \<and> ers_num st1 = ers_num example_acquired \<and>
     (\<forall>e q b. e \<noteq> NULL \<longrightarrow>
      (\<exists>st2 st3. ers_obj_free_entry 4096 e st1 = Inr st2 \<and>
        ers_obj_alloc_entry q b 4096 st2 = Inr (e, st3)))"
    using acquire_shares_manager [OF w _ _ o, of 7 8 8 12288] by (simp add: aligned_size_def)
  then obtain st1 where "ers_new 8 8 7 12288 example_acquired = Inr (4096, st1)"
     "objs st1 = (objs example_acquired)(4096 \<mapsto>
       \<lparr>reuse = NULL, blocks_ptr = NULL, blocks = [], free = 0, num = 0, max_ers = 0,
        destroy = 2, size_ers = 8\<rparr>)"
     "ers_root st1 = ers_root example_acquired" "ers_num st1 = ers_num example_acquired"
     "\<exists>st2 st3. ers_obj_free_entry 4096 500 st1 = Inr st2 \<and>
        ers_obj_alloc_entry 0 0 4096 st2 = Inr (500, st3)"
    by fastforce
  with w show ?thesis by blast
qed

subsection \<open>Growth of the block array\<close>

text \<open>
  C4: in a reachable state, for a live manager and an allocator that delivers, an
  allocation ends in the fatal exit exactly when there is no reusable entry, no unused
  entry, the block array is full and its capacity is \<^verbatim>\<open>UINT32_MAX\<close>; that capacity is
  the only one a manager ever has for which four times the capacity plus three no longer
  fits in 32 bits. In every other case where the array is full, the allocation succeeds
  and the new capacity is four times the old one plus three, computed without wrapping:
  from 0 the capacities are 3, 15, 63 and so on.
\<close>

theorem capacity_growth:
  assumes "reachable st" and "objs st h = Some obj" and "q \<noteq> NULL" and "b \<noteq> NULL"
  shows "(ers_obj_alloc_entry q b h st = Inl Exit \<longleftrightarrow>
      reuse obj = NULL \<and> free obj = 0 \<and> num obj = max_ers obj \<and> max_ers obj = UINT32_MAX) \<and>
    (max_ers obj = UINT32_MAX \<longleftrightarrow> 2 ^ 32 \<le> 4 * unat (max_ers obj) + 3) \<and>
    (reuse obj = NULL \<and> free obj = 0 \<and> num obj = max_ers obj \<and> max_ers obj \<noteq> UINT32_MAX \<longrightarrow>
      (\<exists>e st' obj'. ers_obj_alloc_entry q b h st = Inr (e, st') \<and> objs st' h = Some obj' \<and>
        max_ers obj' = push_bit 2 (max_ers obj) + 3 \<and>
        unat (max_ers obj') = 4 * unat (max_ers obj) + 3 \<and>
        length (blocks obj') = unat (max_ers obj')))"
proof -
  note wf = reachable_wf [OF assms(1)]
  note lv = wf_live_inv [OF wf assms(2)]
  from lv(1) have cap: "max_ers obj \<in> set capacities"
    by (simp add: ers_inv_def)
  have 1: "ers_obj_alloc_entry q b h st = Inl Exit \<longleftrightarrow>
      reuse obj = NULL \<and> free obj = 0 \<and> num obj = max_ers obj \<and> max_ers obj = UINT32_MAX"
    using lv(3) assms(2-4)
    by (auto simp: ers_obj_alloc_entry_def expand_blocks_def Let_def split: if_splits)
  have 2: "max_ers obj = UINT32_MAX \<longleftrightarrow> 2 ^ 32 \<le> 4 * unat (max_ers obj) + 3"
  proof (cases "max_ers obj = UINT32_MAX")
    case True
    then show ?thesis by (simp add: UINT32_MAX_def)
  next
    case False
    have "unat (push_bit 2 (max_ers obj) + 3) < 2 ^ 32"
      using unsigned_less [of "push_bit 2 (max_ers obj) + 3", where 'a = nat] by simp
    with next_capacity(2) [OF cap False] False show ?thesis by simp
  qed
  have 3: "\<exists>e st' obj'. ers_obj_alloc_entry q b h st = Inr (e, st') \<and> objs st' h = Some obj' \<and>
        max_ers obj' = push_bit 2 (max_ers obj) + 3 \<and>
        unat (max_ers obj') = 4 * unat (max_ers obj) + 3 \<and>
        length (blocks obj') = unat (max_ers obj')"
    if g: "reuse obj = NULL \<and> free obj = 0 \<and> num obj = max_ers obj \<and> max_ers obj \<noteq> UINT32_MAX"
  proof -
    from g have ok: "\<not> (num obj = max_ers obj \<and> max_ers obj = UINT32_MAX)" by simp
    from g have r: "reuse obj = NULL" and f: "free obj = 0" and full: "num obj = max_ers obj"
      and ne: "max_ers obj \<noteq> UINT32_MAX" by simp_all
    from alloc_entry_new_block [OF lv(1) assms(2) lv(3) r f ok assms(3,4)] obtain obj1 m1 where
      e: "expand_blocks q obj (allocated st) = Inr (obj1, m1)" and inv1: "ers_inv obj1"
      and a: "ers_obj_alloc_entry q b h st =
        Inr (b + unat ((ERS_BLOCK_ENTRIES - 1) * size_ers obj),
           st\<lparr>objs := (objs st)(h \<mapsto> obj1\<lparr>blocks := (blocks obj1)[unat (num obj) := b],
                 free := ERS_BLOCK_ENTRIES - 1, num := num obj + 1\<rparr>),
              allocated := aMalloc b (Block (size_ers obj * ERS_BLOCK_ENTRIES)) m1\<rparr>)"
      by blast
    from e full ne assms(3) have mx: "max_ers obj1 = push_bit 2 (max_ers obj) + 3"
      by (auto simp: expand_blocks_def Let_def)
    from inv1 have l: "length (blocks obj1) = unat (max_ers obj1)"
      by (simp add: ers_inv_def)
    let ?obj' = "obj1\<lparr>blocks := (blocks obj1)[unat (num obj) := b],
                 free := ERS_BLOCK_ENTRIES - 1, num := num obj + 1\<rparr>"
    let ?st' = "st\<lparr>objs := (objs st)(h \<mapsto> ?obj'),
              allocated := aMalloc b (Block (size_ers obj * ERS_BLOCK_ENTRIES)) m1\<rparr>"
    show ?thesis
      by (rule exI [of _ "b + unat ((ERS_BLOCK_ENTRIES - 1) * size_ers obj)"],
          rule exI [of _ ?st'], rule exI [of _ ?obj'])
        (simp add: a mx l next_capacity(2) [OF cap ne])
  qed
  from 1 2 3 show ?thesis by blast
qed

text \<open>The first allocation of the small run: the capacity goes from 0 to 3.\<close>

theorem capacity_growth_witness:
  "reachable example_acquired \<and>
   ers_obj_alloc_entry 8192 65536 4096 example_acquired \<noteq> Inl Exit \<and>
   (\<exists>e st' obj'. ers_obj_alloc_entry 8192 65536 4096 example_acquired = Inr (e, st') \<and>
      objs st' 4096 = Some obj' \<and> max_ers obj' = 3 \<and> unat (max_ers obj') = 3 \<and>
      length (blocks obj') = 3)"
proof -
  have o: "objs example_acquired 4096 =
      Some \<lparr>reuse = NULL, blocks_ptr = NULL, blocks = [], free = 0, num = 0, max_ers = 0,
        destroy = 1, size_ers = 8\<rparr>"
    by (simp add: example_acquired_def)
  from capacity_growth [OF reachable_example_acquired o, of 8192 65536]
  have "ers_obj_alloc_entry 8192 65536 4096 example_acquired \<noteq> Inl Exit \<and>
   (\<exists>e st' obj'. ers_obj_alloc_entry 8192 65536 4096 example_acquired = Inr (e, st') \<and>
      objs st' 4096 = Some obj' \<and> max_ers obj' = 3 \<and> unat (max_ers obj') = 3 \<and>
      length (blocks obj') = 3)"
    by (auto simp: UINT32_MAX_def)
  with reachable_example_acquired show ?thesis by blast
qed

subsection \<open>A new block\<close>

text \<open>
  C5, as the code has it: in a well-formed state, when a manager has no reusable entry
  and no unused entry, the capacity guard does not fire, the allocator delivers, and
  \<^verbatim>\<open>BLOCK_ENTRIES\<close> times the entry size fits in 32 bits, the allocation creates one block
  of that many bytes, sets the count of unused entries to \<^verbatim>\<open>BLOCK_ENTRIES - 1\<close>, appends
  the block to the blocks of the manager, and returns the slot of index
  \<^verbatim>\<open>BLOCK_ENTRIES - 1\<close> of the new block: the address of the block plus
  \<^verbatim>\<open>(BLOCK_ENTRIES - 1)\<close> times the entry size.
\<close>

theorem new_block_last_slot:
  assumes "wf_state st" and "objs st h = Some obj"
    and "reuse obj = NULL" and "free obj = 0"
    and "\<not> (num obj = max_ers obj \<and> max_ers obj = UINT32_MAX)"
    and "q \<noteq> NULL" and "b \<noteq> NULL"
    and "unat (size_ers obj) * 4096 < 2 ^ 32"
  shows "\<exists>st' obj'.
    ers_obj_alloc_entry q b h st = Inr (b + 4095 * unat (size_ers obj), st') \<and>
    objs st' h = Some obj' \<and>
    allocated st' b = Some (Block (size_ers obj * ERS_BLOCK_ENTRIES)) \<and>
    unat (size_ers obj * ERS_BLOCK_ENTRIES) = unat ERS_BLOCK_ENTRIES * unat (size_ers obj) \<and>
    free obj' = ERS_BLOCK_ENTRIES - 1 \<and>
    num obj' = num obj + 1 \<and> unat (num obj') = Suc (unat (num obj)) \<and>
    take (unat (num obj')) (blocks obj') = take (unat (num obj)) (blocks obj) @ [b] \<and>
    size_ers obj' = size_ers obj"
proof -
  note lv = wf_live_inv [OF assms(1,2)]
  from alloc_entry_new_block [OF lv(1) assms(2) lv(3) assms(3-7)] obtain obj1 m1 where
    inv1: "ers_inv obj1" and n1: "num obj1 = num obj" and s1: "size_ers obj1 = size_ers obj"
    and lt: "unat (num obj) < length (blocks obj1)"
    and tk: "take (unat (num obj)) (blocks obj1) = take (unat (num obj)) (blocks obj)"
    and a: "ers_obj_alloc_entry q b h st =
      Inr (b + unat ((ERS_BLOCK_ENTRIES - 1) * size_ers obj),
           st\<lparr>objs := (objs st)(h \<mapsto> obj1\<lparr>blocks := (blocks obj1)[unat (num obj) := b],
                 free := ERS_BLOCK_ENTRIES - 1, num := num obj + 1\<rparr>),
              allocated := aMalloc b (Block (size_ers obj * ERS_BLOCK_ENTRIES)) m1\<rparr>)"
    by blast
  let ?obj' = "obj1\<lparr>blocks := (blocks obj1)[unat (num obj) := b],
                 free := ERS_BLOCK_ENTRIES - 1, num := num obj + 1\<rparr>"
  let ?st' = "st\<lparr>objs := (objs st)(h \<mapsto> ?obj'),
              allocated := aMalloc b (Block (size_ers obj * ERS_BLOCK_ENTRIES)) m1\<rparr>"
  have "unat (4095 :: uint32) * unat (size_ers obj) < 2 ^ LENGTH(32)"
    using assms(8) by simp
  then have off: "unat ((ERS_BLOCK_ENTRIES - 1) * size_ers obj) = 4095 * unat (size_ers obj)"
    by (simp add: ERS_BLOCK_ENTRIES_def unat_mult_lem [THEN iffD1])
  have "unat (size_ers obj) * unat (4096 :: uint32) < 2 ^ LENGTH(32)"
    using assms(8) by simp
  then have bytes: "unat (size_ers obj * ERS_BLOCK_ENTRIES) = unat ERS_BLOCK_ENTRIES * unat (size_ers obj)"
    by (simp add: ERS_BLOCK_ENTRIES_def unat_mult_lem [THEN iffD1])
  from inv1 have "unat (num obj1) \<le> length (blocks obj1)"
    by (simp add: ers_inv_def word_le_nat_alt)
  have "num obj < max_ers obj1"
    using inv1 lt n1 by (simp add: ers_inv_def word_less_nat_alt)
  then have suc: "unat (num obj + 1) = Suc (unat (num obj))"
    by (rule word_succ_unat)
  have app: "take (unat (num obj + 1)) ((blocks obj1)[unat (num obj) := b]) =
      take (unat (num obj)) (blocks obj) @ [b]"
    using lt tk by (simp add: suc take_Suc_conv_app_nth)
  show ?thesis
  proof (intro exI [of _ ?st'] exI [of _ ?obj'] conjI)
    show "ers_obj_alloc_entry q b h st = Inr (b + 4095 * unat (size_ers obj), ?st')"
      using a by (simp only: off)
    show "objs ?st' h = Some ?obj'" by simp
    show "allocated ?st' b = Some (Block (size_ers obj * ERS_BLOCK_ENTRIES))"
      by (simp add: aMalloc_def)
    show "unat (size_ers obj * ERS_BLOCK_ENTRIES) = unat ERS_BLOCK_ENTRIES * unat (size_ers obj)"
      by (fact bytes)
    show "free ?obj' = ERS_BLOCK_ENTRIES - 1" by simp
    show "num ?obj' = num obj + 1" by simp
    show "unat (num ?obj') = Suc (unat (num obj))" using suc by simp
    show "take (unat (num ?obj')) (blocks ?obj') = take (unat (num obj)) (blocks obj) @ [b]"
      using app by simp
    show "size_ers ?obj' = size_ers obj" using s1 by simp
  qed
qed

text \<open>The first allocation of the small run.\<close>

theorem new_block_last_slot_witness:
  "wf_state example_acquired \<and>
   (\<exists>st' obj'.
     ers_obj_alloc_entry 8192 65536 4096 example_acquired = Inr (65536 + 4095 * 8, st') \<and>
     objs st' 4096 = Some obj' \<and>
     allocated st' 65536 = Some (Block (8 * ERS_BLOCK_ENTRIES)) \<and>
     unat (8 * ERS_BLOCK_ENTRIES) = unat ERS_BLOCK_ENTRIES * 8 \<and>
     free obj' = ERS_BLOCK_ENTRIES - 1 \<and> num obj' = 1 \<and> unat (num obj') = 1 \<and>
     take (unat (num obj')) (blocks obj') = [65536] \<and> size_ers obj' = 8)"
proof -
  have w: "wf_state example_acquired"
    using reachable_example_acquired by (rule reachable_wf)
  have o: "objs example_acquired 4096 =
      Some \<lparr>reuse = NULL, blocks_ptr = NULL, blocks = [], free = 0, num = 0, max_ers = 0,
        destroy = 1, size_ers = 8\<rparr>"
    by (simp add: example_acquired_def)
  from new_block_last_slot [OF w o, of 8192 65536] w show ?thesis
    by (simp add: UINT32_MAX_def)
qed

text \<open>
  C5 as stated fails: the entry returned from the new block at 65536 is not the first
  slot of the block, it is the last one, 4095 entries of 8 bytes further.
\<close>

theorem new_block_not_first_slot:
  "ers_obj_alloc_entry 8192 65536 4096 example_acquired = Inr (98296, example_block) \<and>
   allocated example_block 65536 = Some (Block 32768) \<and>
   (98296 :: ptr) \<noteq> 65536"
  using example_block_run by (simp add: example_block_def)

subsection \<open>The invariant of a manager\<close>

text \<open>
  Every live manager of a reachable state has at most as many blocks as its block array
  has cells, at most \<^verbatim>\<open>BLOCK_ENTRIES - 1\<close> unused entries, and at least one block when it
  has an unused entry. So the branch of the allocation that hands out an unused entry
  reads the cell \<open>num - 1\<close> of the block array, which is below \<open>num\<close> and inside the
  array, and returns the slot of index \<open>free - 1\<close>, which is below \<^verbatim>\<open>BLOCK_ENTRIES\<close>.
  The slot ends inside the \<^verbatim>\<open>BLOCK_ENTRIES\<close> times entry size bytes of the block only
  when that product fits in 32 bits.
\<close>

lemma manager_invariant:
  assumes "reachable st" and "objs st h = Some obj"
  shows "num obj \<le> max_ers obj \<and> free obj \<le> ERS_BLOCK_ENTRIES - 1 \<and>
    (0 < free obj \<longrightarrow> 1 \<le> num obj) \<and>
    (reuse obj = NULL \<and> free obj \<noteq> 0 \<longrightarrow>
       unat (num obj - 1) < unat (num obj) \<and> unat (num obj) \<le> length (blocks obj) \<and>
       unat (free obj - 1) < unat ERS_BLOCK_ENTRIES \<and>
       (unat (size_ers obj) * 4096 < 2 ^ 32 \<longrightarrow>
          unat ((free obj - 1) * size_ers obj) + unat (size_ers obj)
            \<le> unat ERS_BLOCK_ENTRIES * unat (size_ers obj)) \<and>
       (\<forall>q b. ers_obj_alloc_entry q b h st =
          Inr (blocks obj ! unat (num obj - 1) + unat ((free obj - 1) * size_ers obj),
               st\<lparr>objs := (objs st)(h \<mapsto> obj\<lparr>free := free obj - 1\<rparr>)\<rparr>)))"
proof -
  note wf = reachable_wf [OF assms(1)]
  note lv = wf_live_inv [OF wf assms(2)]
  from lv(1) have n: "num obj \<le> max_ers obj" and f: "free obj \<le> ERS_BLOCK_ENTRIES - 1"
    and p: "0 < free obj \<longrightarrow> 1 \<le> num obj" and l: "length (blocks obj) = unat (max_ers obj)"
    by (simp_all add: ers_inv_def)
  have u: "unat (num obj - 1) < unat (num obj) \<and> unat (num obj) \<le> length (blocks obj) \<and>
       unat (free obj - 1) < unat ERS_BLOCK_ENTRIES \<and>
       (unat (size_ers obj) * 4096 < 2 ^ 32 \<longrightarrow>
          unat ((free obj - 1) * size_ers obj) + unat (size_ers obj)
            \<le> unat ERS_BLOCK_ENTRIES * unat (size_ers obj)) \<and>
       (\<forall>q b. ers_obj_alloc_entry q b h st =
          Inr (blocks obj ! unat (num obj - 1) + unat ((free obj - 1) * size_ers obj),
               st\<lparr>objs := (objs st)(h \<mapsto> obj\<lparr>free := free obj - 1\<rparr>)\<rparr>))"
    if br: "reuse obj = NULL \<and> free obj \<noteq> 0"
  proof -
    from br have fz: "free obj \<noteq> 0" and r: "reuse obj = NULL" by simp_all
    from fz have "0 < free obj" by (rule word_pos)
    with p have one: "1 \<le> num obj" by simp
    note a = num_pred [OF one]
    have b: "unat (num obj) \<le> length (blocks obj)"
      using n l by (simp add: word_le_nat_alt)
    have "unat (free obj - 1) \<le> unat (ERS_BLOCK_ENTRIES - 1)"
      using free_pred [OF fz f] by (simp add: word_le_nat_alt)
    then have c: "unat (free obj - 1) < unat ERS_BLOCK_ENTRIES"
      by (simp add: ERS_BLOCK_ENTRIES_def)
    have d: "ers_obj_alloc_entry q b h st =
          Inr (blocks obj ! unat (num obj - 1) + unat ((free obj - 1) * size_ers obj),
               st\<lparr>objs := (objs st)(h \<mapsto> obj\<lparr>free := free obj - 1\<rparr>)\<rparr>)" for q b
      using lv(3) assms(2) r fz a b by (simp add: ers_obj_alloc_entry_def Let_def)
    have e: "unat ((free obj - 1) * size_ers obj) + unat (size_ers obj)
            \<le> unat ERS_BLOCK_ENTRIES * unat (size_ers obj)"
      if sm: "unat (size_ers obj) * 4096 < 2 ^ 32"
    proof -
      from c have c': "unat (free obj - 1) \<le> 4095"
        by (simp add: ERS_BLOCK_ENTRIES_def)
      then have le: "unat (free obj - 1) * unat (size_ers obj) \<le> 4095 * unat (size_ers obj)"
        by (rule mult_le_mono1)
      from sm have "4095 * unat (size_ers obj) < 2 ^ LENGTH(32)"
        by simp
      with le have "unat (free obj - 1) * unat (size_ers obj) < 2 ^ LENGTH(32)"
        by (rule le_less_trans)
      then have "unat ((free obj - 1) * size_ers obj) = unat (free obj - 1) * unat (size_ers obj)"
        by (rule unat_mult_lem [THEN iffD1])
      moreover have "unat (free obj - 1) * unat (size_ers obj) + unat (size_ers obj)
          \<le> 4096 * unat (size_ers obj)"
        using le by linarith
      ultimately show ?thesis
        by (simp add: ERS_BLOCK_ENTRIES_def)
    qed
    from a b c d e show ?thesis by blast
  qed
  from n f p u show ?thesis by blast
qed

text \<open>The second allocation of the small run takes the unused entry 4094 of the block.\<close>

lemma manager_invariant_witness:
  "reachable example_block \<and>
   ers_obj_alloc_entry 0 0 4096 example_block =
     Inr (65536 + 4094 * 8,
          example_block\<lparr>objs := (objs example_block)(4096 \<mapsto>
            \<lparr>reuse = NULL, blocks_ptr = 8192, blocks = [65536, NULL, NULL], free = 4094,
             num = 1, max_ers = 3, destroy = 1, size_ers = 8\<rparr>)\<rparr>)"
proof -
  have o: "objs example_block 4096 =
      Some \<lparr>reuse = NULL, blocks_ptr = 8192, blocks = [65536, NULL, NULL], free = 4095,
        num = 1, max_ers = 3, destroy = 1, size_ers = 8\<rparr>"
    by (simp add: example_block_def)
  from manager_invariant [OF reachable_example_block o]
  have "ers_obj_alloc_entry 0 0 4096 example_block =
     Inr (65536 + 4094 * 8,
          example_block\<lparr>objs := (objs example_block)(4096 \<mapsto>
            \<lparr>reuse = NULL, blocks_ptr = 8192, blocks = [65536, NULL, NULL], free = 4094,
             num = 1, max_ers = 3, destroy = 1, size_ers = 8\<rparr>)\<rparr>)"
    by simp
  with reachable_example_block show ?thesis by blast
qed

text \<open>
  C10 does not hold for every manager: the counters stay in their bounds, but the entry
  returned by the unused-entry branch can lie outside its block. A fresh process calls
  \<^verbatim>\<open>ers_new(1048576)\<close> and allocates twice. The 32-bit product of line 223,
  \<^verbatim>\<open>obj->size*ERS_BLOCK_ENTRIES\<close>, wraps to 0, so the block created at 65536 has 0 bytes;
  the first allocation returns the address 4293918720 bytes after the start of that
  block, and the second, through the unused-entry branch of lines 211 and 212, the
  address 4292870144 bytes after it.
\<close>

theorem unused_entry_outside_block:
  "\<exists>s1 s2 s3.
     ers_new 8 8 1048576 4096 ers_initial = Inr (4096, s1) \<and>
     ers_obj_alloc_entry 8192 65536 4096 s1 = Inr (65536 + 4293918720, s2) \<and>
     reachable s2 \<and>
     allocated s2 65536 = Some (Block 0) \<and>
     objs s2 4096 =
       Some \<lparr>reuse = NULL, blocks_ptr = 8192, blocks = [65536, NULL, NULL], free = 4095,
             num = 1, max_ers = 3, destroy = 1, size_ers = 1048576\<rparr> \<and>
     ers_obj_alloc_entry 8192 131072 4096 s2 = Inr (65536 + 4292870144, s3)"
proof -
  let ?m0 = "\<lparr>reuse = NULL, blocks_ptr = NULL, blocks = [], free = 0, num = 0,
      max_ers = 0, destroy = 1, size_ers = 1048576\<rparr>"
  let ?s1 = "ers_initial\<lparr>objs := (objs ers_initial)(4096 \<mapsto> ?m0),
      allocated := aMalloc 4096 Manager (allocated ers_initial),
      ers_root := (ers_root ers_initial)[unat (ers_num ers_initial) := 4096],
      ers_num := ers_num ers_initial + 1\<rparr>"
  let ?m1 = "\<lparr>reuse = NULL, blocks_ptr = 8192, blocks = [65536, NULL, NULL], free = 4095,
      num = 1, max_ers = 3, destroy = 1, size_ers = 1048576\<rparr>"
  let ?s2 = "?s1\<lparr>objs := (objs ?s1)(4096 \<mapsto> ?m1),
      allocated := aMalloc 65536 (Block 0)
        (RECREATE NULL 8192 (BlockArray 3) (allocated ?s1))\<rparr>"
  let ?s3 = "?s2\<lparr>objs := (objs ?s2)(4096 \<mapsto> ?m1\<lparr>free := 4094\<rparr>)\<rparr>"
  have r3: "replicate 3 NULL = [NULL, NULL, NULL]"
    by (simp add: numeral_3_eq_3)
  have z: "(4294967296 :: uint32) = 0"
    by (simp add: word_eq_iff_unsigned [where ?'a = nat] unsigned_numeral take_bit_eq_mod)
  have n: "ers_new 8 8 1048576 4096 ers_initial = Inr (4096, ?s1)"
    by (simp add: ers_new_def ers_new_lookup.simps aligned_size_def ers_initial_def
        ERS_ROOT_SIZE_def)
  have a1: "ers_obj_alloc_entry 8192 65536 4096 ?s1 = Inr (65536 + 4293918720, ?s2)"
    by (simp add: ers_obj_alloc_entry_def expand_blocks_def UINT32_MAX_def ERS_BLOCK_ENTRIES_def
        RECREATE_cells_def Let_def r3 ers_initial_def z)
  have a2: "ers_obj_alloc_entry 8192 131072 4096 ?s2 = Inr (65536 + 4292870144, ?s3)"
    by (simp add: ers_obj_alloc_entry_def Let_def)
  have "reachable ers_initial"
    by (rule reachable.start) (simp_all add: ers_initial_def ERS_ROOT_SIZE_def)
  moreover have "4096 \<notin> dom (objs ers_initial)"
    by (simp add: ers_initial_def)
  ultimately have "reachable ?s1"
    using n by (rule reachable.new)
  then have r2: "reachable ?s2"
    using a1 by (rule reachable.alloc)
  have al: "allocated ?s2 65536 = Some (Block 0)"
    by (simp add: aMalloc_def)
  have o: "objs ?s2 4096 = Some ?m1"
    by simp
  from n a1 r2 al o a2 show ?thesis
    by blast
qed

subsection \<open>The release of a handle\<close>

text \<open>
  C7: in a well-formed state, \<^verbatim>\<open>ers_obj_destroy\<close> on a live manager takes one from its
  count of instances. When the count does not reach zero, nothing else changes. When it
  reaches zero, the manager leaves the root array: the last registered manager is
  written into its slot \<open>k\<close> and the number of managers goes down by one; its record, its
  block array and its blocks are released. A later \<^verbatim>\<open>ers_new\<close> for a request of the same
  normalized size finds no manager for it and creates one at the address \<open>p\<close> the
  allocator gives: no blocks, no reusable entry, one instance.
\<close>

theorem release_last_handle:
  assumes "wf_state st" and "objs st h = Some obj"
  shows "(destroy obj \<noteq> 1 \<longrightarrow>
      ers_obj_destroy h st =
        Inr (None, st\<lparr>objs := (objs st)(h \<mapsto> obj\<lparr>destroy := destroy obj - 1\<rparr>)\<rparr>)) \<and>
    (destroy obj = 1 \<longrightarrow>
      (\<exists>w st' k. ers_obj_destroy h st = Inr (w, st') \<and>
        k < unat (ers_num st) \<and> ers_root st ! k = h \<and>
        ers_num st' = ers_num st - 1 \<and>
        ers_root st' = (ers_root st)[k := ers_root st ! unat (ers_num st - 1)] \<and>
        set (registered st') = set (registered st) - {h} \<and>
        objs st' = (objs st)(h := None) \<and>
        (\<forall>p \<in> owned h obj. allocated st' p = None) \<and>
        (\<forall>al lk sz0 p. sz0 \<noteq> 0 \<and> al \<noteq> 0 \<and> p \<noteq> NULL \<and>
            aligned_size al lk sz0 = size_ers obj \<longrightarrow>
          (\<exists>st''. ers_new al lk sz0 p st' = Inr (p, st'') \<and>
            objs st'' p = Some \<lparr>reuse = NULL, blocks_ptr = NULL, blocks = [], free = 0,
              num = 0, max_ers = 0, destroy = 1, size_ers = size_ers obj\<rparr> \<and>
            registered st'' = registered st' @ [p]))))"
proof -
  note lv = wf_live_inv [OF assms]
  have A: "ers_obj_destroy h st =
        Inr (None, st\<lparr>objs := (objs st)(h \<mapsto> obj\<lparr>destroy := destroy obj - 1\<rparr>)\<rparr>)"
    if "destroy obj \<noteq> 1"
    using destroy_not_last [OF lv(3) assms(2) that] .
  have B: "\<exists>w st' k. ers_obj_destroy h st = Inr (w, st') \<and>
        k < unat (ers_num st) \<and> ers_root st ! k = h \<and>
        ers_num st' = ers_num st - 1 \<and>
        ers_root st' = (ers_root st)[k := ers_root st ! unat (ers_num st - 1)] \<and>
        set (registered st') = set (registered st) - {h} \<and>
        objs st' = (objs st)(h := None) \<and>
        (\<forall>p \<in> owned h obj. allocated st' p = None) \<and>
        (\<forall>al lk sz0 p. sz0 \<noteq> 0 \<and> al \<noteq> 0 \<and> p \<noteq> NULL \<and>
            aligned_size al lk sz0 = size_ers obj \<longrightarrow>
          (\<exists>st''. ers_new al lk sz0 p st' = Inr (p, st'') \<and>
            objs st'' p = Some \<lparr>reuse = NULL, blocks_ptr = NULL, blocks = [], free = 0,
              num = 0, max_ers = 0, destroy = 1, size_ers = size_ers obj\<rparr> \<and>
            registered st'' = registered st' @ [p]))"
    if one: "destroy obj = 1"
  proof -
    from lv(2) obtain k where k: "k < length (registered st)" "registered st ! k = h"
      by (auto simp: in_set_conv_nth)
    from destroy_last [OF assms one k] obtain m where
      m: "\<forall>p. m p = (if p \<in> owned h obj then None else allocated st p)"
      and d: "ers_obj_destroy h st =
        Inr (destroy_check (ll_next st) (obj\<lparr>destroy := 0\<rparr>),
           st\<lparr>ers_num := ers_num st - 1,
              ers_root := (ers_root st)[k := ers_root st ! unat (ers_num st - 1)],
              objs := (objs st)(h := None), allocated := m\<rparr>)"
      by blast
    let ?st' = "st\<lparr>ers_num := ers_num st - 1,
              ers_root := (ers_root st)[k := ers_root st ! unat (ers_num st - 1)],
              objs := (objs st)(h := None), allocated := m\<rparr>"
    have wf': "wf_state ?st'"
      using assms(1) d by (rule wf_destroy)
    from assms(1) have dist: "distinct (registered st)"
      and sizes: "distinct (map (\<lambda>q. map_option size_ers (objs st q)) (registered st))"
      and le: "ers_num st \<le> ERS_ROOT_SIZE" and len: "length (ers_root st) = unat ERS_ROOT_SIZE"
      by (simp_all add: wf_state_def)
    from le len have nl: "unat (ers_num st) \<le> length (ers_root st)"
      by (simp add: word_le_nat_alt)
    have kn: "k < unat (ers_num st)" and hk: "ers_root st ! k = h"
      using k by (simp_all add: registered_def)
    have reg: "registered ?st' = butlast ((registered st)[k := last (registered st)])"
      using root_remove_registered(2) [OF assms(1) k] by (simp add: registered_def)
    have setreg: "set (registered ?st') = set (registered st) - {h}"
      using swap_remove(2) [OF dist k(1)] k(2) by (simp add: reg)
    have n1: "unat (ers_num st - 1) = unat (ers_num st) - 1"
      using kn by (simp add: unat_minus_one unat_eq_zero [symmetric])
    have room: "ers_num ?st' \<noteq> ERS_ROOT_SIZE"
    proof
      assume "ers_num ?st' = ERS_ROOT_SIZE"
      then have "unat (ers_num st - 1) = 256"
        by (simp add: ERS_ROOT_SIZE_def)
      with n1 kn nl len show False
        by (simp add: ERS_ROOT_SIZE_def)
    qed
    have none: "\<forall>q \<in> set (registered ?st'). \<forall>ob. objs ?st' q = Some ob \<longrightarrow>
        size_ers ob \<noteq> size_ers obj"
    proof (intro ballI allI impI)
      fix q ob assume q: "q \<in> set (registered ?st')" and ob: "objs ?st' q = Some ob"
      from q setreg have qr: "q \<in> set (registered st)" and qh: "q \<noteq> h" by auto
      from ob qh have ob': "objs st q = Some ob" by simp
      from sizes have "inj_on (\<lambda>q. map_option size_ers (objs st q)) (set (registered st))"
        by (simp add: distinct_map)
      from inj_onD [OF this _ qr lv(2)] qh ob' assms(2) show "size_ers ob \<noteq> size_ers obj"
        by auto
    qed
    have fresh: "\<exists>st''. ers_new al lk sz0 p ?st' = Inr (p, st'') \<and>
            objs st'' p = Some \<lparr>reuse = NULL, blocks_ptr = NULL, blocks = [], free = 0,
              num = 0, max_ers = 0, destroy = 1, size_ers = size_ers obj\<rparr> \<and>
            registered st'' = registered ?st' @ [p]"
      if c: "sz0 \<noteq> 0 \<and> al \<noteq> 0 \<and> p \<noteq> NULL \<and> aligned_size al lk sz0 = size_ers obj"
      for al lk sz0 p
    proof -
      from c have c1: "sz0 \<noteq> 0" and c2: "al \<noteq> 0" and c3: "p \<noteq> NULL"
        and c4: "aligned_size al lk sz0 = size_ers obj" by simp_all
      from none have none': "\<forall>q \<in> set (registered ?st'). \<forall>ob. objs ?st' q = Some ob \<longrightarrow>
        size_ers ob \<noteq> aligned_size al lk sz0"
        by (simp only: c4)
      from wf_new_manager [OF wf' c1 c2 c3 none' room] show ?thesis
        by (simp only: c4)
    qed
    show ?thesis
    proof (intro exI [of _ "destroy_check (ll_next st) (obj\<lparr>destroy := 0\<rparr>)"]
        exI [of _ ?st'] exI [of _ k] conjI)
      show "ers_obj_destroy h st = Inr (destroy_check (ll_next st) (obj\<lparr>destroy := 0\<rparr>), ?st')"
        by (fact d)
      show "k < unat (ers_num st)" by (fact kn)
      show "ers_root st ! k = h" by (fact hk)
      show "ers_num ?st' = ers_num st - 1" by simp
      show "ers_root ?st' = (ers_root st)[k := ers_root st ! unat (ers_num st - 1)]" by simp
      show "set (registered ?st') = set (registered st) - {h}" by (fact setreg)
      show "objs ?st' = (objs st)(h := None)" by simp
      show "\<forall>p \<in> owned h obj. allocated ?st' p = None" using m by simp
      show "\<forall>al lk sz0 p. sz0 \<noteq> 0 \<and> al \<noteq> 0 \<and> p \<noteq> NULL \<and>
            aligned_size al lk sz0 = size_ers obj \<longrightarrow>
          (\<exists>st''. ers_new al lk sz0 p ?st' = Inr (p, st'') \<and>
            objs st'' p = Some \<lparr>reuse = NULL, blocks_ptr = NULL, blocks = [], free = 0,
              num = 0, max_ers = 0, destroy = 1, size_ers = size_ers obj\<rparr> \<and>
            registered st'' = registered ?st' @ [p])"
        using fresh by blast
    qed
  qed
  from A B show ?thesis by blast
qed

text \<open>
  In the small run, the release of one of two instances only counts down; the release
  of the last instance empties the root array, and \<^verbatim>\<open>ers_new(5)\<close> then creates a manager.
\<close>

theorem release_last_handle_witness:
  "wf_state example_shared \<and>
   ers_obj_destroy 4096 example_shared = Inr (None, example_block) \<and>
   wf_state example_block \<and>
   (\<exists>w st'. ers_obj_destroy 4096 example_block = Inr (w, st') \<and>
      ers_num st' = 0 \<and> set (registered st') = {} \<and> objs st' = Map.empty \<and>
      allocated st' 4096 = None \<and> allocated st' 8192 = None \<and> allocated st' 65536 = None \<and>
      (\<exists>st''. ers_new 8 8 5 12288 st' = Inr (12288, st'') \<and>
         objs st'' 12288 = Some \<lparr>reuse = NULL, blocks_ptr = NULL, blocks = [], free = 0,
              num = 0, max_ers = 0, destroy = 1, size_ers = 8\<rparr>))"
proof -
  have w: "wf_state example_block"
    using reachable_example_block by (rule reachable_wf)
  have o: "objs example_block 4096 =
      Some \<lparr>reuse = NULL, blocks_ptr = 8192, blocks = [65536, NULL, NULL], free = 4095,
        num = 1, max_ers = 3, destroy = 1, size_ers = 8\<rparr>"
    by (simp add: example_block_def)
  have a: "aligned_size 8 8 5 = 8"
    by (simp add: aligned_size_def)
  from release_last_handle [OF w o] obtain w' st' where
    d: "ers_obj_destroy 4096 example_block = Inr (w', st')"
    and n: "ers_num st' = ers_num example_block - 1"
    and r: "set (registered st') = set (registered example_block) - {4096}"
    and ob: "objs st' = (objs example_block)(4096 := None)"
    and al: "\<forall>p \<in> owned 4096 \<lparr>reuse = NULL, blocks_ptr = 8192, blocks = [65536, NULL, NULL],
        free = 4095, num = 1, max_ers = 3, destroy = 1, size_ers = 8\<rparr>. allocated st' p = None"
    and nw: "\<forall>al lk sz0 p. sz0 \<noteq> 0 \<and> al \<noteq> 0 \<and> p \<noteq> NULL \<and> aligned_size al lk sz0 = 8 \<longrightarrow>
          (\<exists>st''. ers_new al lk sz0 p st' = Inr (p, st'') \<and>
            objs st'' p = Some \<lparr>reuse = NULL, blocks_ptr = NULL, blocks = [], free = 0,
              num = 0, max_ers = 0, destroy = 1, size_ers = 8\<rparr> \<and>
            registered st'' = registered st' @ [p])"
    by auto
  from nw [rule_format, of 5 8 12288 8] a
  have f: "\<exists>st''. ers_new 8 8 5 12288 st' = Inr (12288, st'') \<and>
         objs st'' 12288 = Some \<lparr>reuse = NULL, blocks_ptr = NULL, blocks = [], free = 0,
              num = 0, max_ers = 0, destroy = 1, size_ers = 8\<rparr>"
    by auto
  have "ers_num st' = 0" using n by (simp add: example_block_def)
  moreover have "set (registered st') = {}" using r by (simp add: registered_example_block)
  moreover have "objs st' = Map.empty" using ob by (simp add: example_block_def)
  moreover have "allocated st' 4096 = None" "allocated st' 8192 = None" "allocated st' 65536 = None"
    using al by (simp_all add: owned_def)
  moreover have w2: "wf_state example_shared"
    using reachable_example_shared by (rule reachable_wf)
  moreover have "ers_obj_destroy 4096 example_shared = Inr (None, example_block)"
  proof -
    have o2: "objs example_shared 4096 =
      Some \<lparr>reuse = NULL, blocks_ptr = 8192, blocks = [65536, NULL, NULL], free = 4095,
        num = 1, max_ers = 3, destroy = 2, size_ers = 8\<rparr>"
      by (simp add: example_shared_def)
    from release_last_handle [OF w2 o2] show ?thesis
      by (simp add: example_shared_def) (simp add: example_block_def)
  qed
  ultimately show ?thesis
    using w d f by blast
qed

subsection \<open>Forced destruction of all managers\<close>

text \<open>
  C8: in every well-formed state, whatever the counts of instances,
  \<^verbatim>\<open>ers_force_destroy_all\<close> returns, the number of managers is then zero, and for every
  manager that was registered the record, the block array and every block are released.
  A later \<^verbatim>\<open>ers_new\<close> creates its manager in the first slot of the root array.
\<close>

theorem force_destroy_all_releases:
  assumes "wf_state st"
  shows "\<exists>st'. ers_force_destroy_all st = Inr st' \<and> ers_num st' = 0 \<and> registered st' = [] \<and>
    (\<forall>h \<in> set (registered st). \<forall>obj. objs st h = Some obj \<longrightarrow>
       objs st' h = None \<and> (\<forall>p \<in> owned h obj. allocated st' p = None)) \<and>
    (\<forall>al lk sz0 p. sz0 \<noteq> 0 \<and> al \<noteq> 0 \<and> p \<noteq> NULL \<longrightarrow>
       (\<exists>st''. ers_new al lk sz0 p st' = Inr (p, st'') \<and> registered st'' = [p] \<and>
          objs st'' p = Some \<lparr>reuse = NULL, blocks_ptr = NULL, blocks = [], free = 0,
              num = 0, max_ers = 0, destroy = 1, size_ers = aligned_size al lk sz0\<rparr>))"
proof -
  from force_destroy_all_result [OF assms] obtain st' where
    d: "ers_force_destroy_all st = Inr st'" and n: "ers_num st' = 0"
    and o: "\<forall>p. objs st' p = (if p \<in> set (registered st) then None else objs st p)"
    and a: "\<forall>p. allocated st' p =
      (if \<exists>h \<in> set (registered st). p \<in> owned h (the (objs st h))
       then None else allocated st p)"
    by blast
  have wf': "wf_state st'"
    using assms d by (rule wf_destroy_all)
  have reg: "registered st' = []"
    by (simp add: registered_def n)
  have rel: "\<forall>h \<in> set (registered st). \<forall>obj. objs st h = Some obj \<longrightarrow>
       objs st' h = None \<and> (\<forall>p \<in> owned h obj. allocated st' p = None)"
  proof (intro ballI allI impI conjI)
    fix h obj assume h: "h \<in> set (registered st)" and obj: "objs st h = Some obj"
    from h o show "objs st' h = None" by simp
    fix p assume "p \<in> owned h obj"
    with h obj have "\<exists>h \<in> set (registered st). p \<in> owned h (the (objs st h))"
      by (intro bexI [of _ h]) simp_all
    with a show "allocated st' p = None" by simp
  qed
  have room: "ers_num st' \<noteq> ERS_ROOT_SIZE"
    by (simp add: n ERS_ROOT_SIZE_def)
  have fresh: "\<exists>st''. ers_new al lk sz0 p st' = Inr (p, st'') \<and> registered st'' = [p] \<and>
          objs st'' p = Some \<lparr>reuse = NULL, blocks_ptr = NULL, blocks = [], free = 0,
              num = 0, max_ers = 0, destroy = 1, size_ers = aligned_size al lk sz0\<rparr>"
    if c: "sz0 \<noteq> 0 \<and> al \<noteq> 0 \<and> p \<noteq> NULL" for al lk sz0 p
  proof -
    from c have c1: "sz0 \<noteq> 0" and c2: "al \<noteq> 0" and c3: "p \<noteq> NULL" by simp_all
    have none: "\<forall>q \<in> set (registered st'). \<forall>ob. objs st' q = Some ob \<longrightarrow>
        size_ers ob \<noteq> aligned_size al lk sz0"
      by (simp add: reg)
    from wf_new_manager [OF wf' c1 c2 c3 none room] show ?thesis
      by (auto simp: reg)
  qed
  from d n reg rel fresh show ?thesis by blast
qed

text \<open>The small run, destroyed by force after its first allocation.\<close>

theorem force_destroy_all_releases_witness:
  "wf_state example_block \<and>
   (\<exists>st'. ers_force_destroy_all example_block = Inr st' \<and> ers_num st' = 0 \<and>
      registered st' = [] \<and> objs st' 4096 = None \<and>
      allocated st' 4096 = None \<and> allocated st' 8192 = None \<and> allocated st' 65536 = None \<and>
      (\<exists>st''. ers_new 8 8 5 12288 st' = Inr (12288, st'') \<and> registered st'' = [12288] \<and>
         objs st'' 12288 = Some \<lparr>reuse = NULL, blocks_ptr = NULL, blocks = [], free = 0,
              num = 0, max_ers = 0, destroy = 1, size_ers = 8\<rparr>))"
proof -
  have w: "wf_state example_block"
    using reachable_example_block by (rule reachable_wf)
  have o: "objs example_block 4096 =
      Some \<lparr>reuse = NULL, blocks_ptr = 8192, blocks = [65536, NULL, NULL], free = 4095,
        num = 1, max_ers = 3, destroy = 1, size_ers = 8\<rparr>"
    by (simp add: example_block_def)
  have a: "aligned_size 8 8 5 = 8"
    by (simp add: aligned_size_def)
  from force_destroy_all_releases [OF w] obtain st' where
    d: "ers_force_destroy_all example_block = Inr st'" and n: "ers_num st' = 0"
    and reg: "registered st' = []"
    and rel: "\<forall>h \<in> set (registered example_block). \<forall>obj. objs example_block h = Some obj \<longrightarrow>
       objs st' h = None \<and> (\<forall>p \<in> owned h obj. allocated st' p = None)"
    and nw: "\<forall>al lk sz0 p. sz0 \<noteq> 0 \<and> al \<noteq> 0 \<and> p \<noteq> NULL \<longrightarrow>
       (\<exists>st''. ers_new al lk sz0 p st' = Inr (p, st'') \<and> registered st'' = [p] \<and>
          objs st'' p = Some \<lparr>reuse = NULL, blocks_ptr = NULL, blocks = [], free = 0,
              num = 0, max_ers = 0, destroy = 1, size_ers = aligned_size al lk sz0\<rparr>)"
    by blast
  from rel o have "objs st' 4096 = None"
    and al: "\<forall>p \<in> owned 4096 \<lparr>reuse = NULL, blocks_ptr = 8192, blocks = [65536, NULL, NULL],
        free = 4095, num = 1, max_ers = 3, destroy = 1, size_ers = 8\<rparr>. allocated st' p = None"
    by (simp_all add: registered_example_block)
  moreover from al have "allocated st' 4096 = None" "allocated st' 8192 = None"
    "allocated st' 65536 = None"
    by (simp_all add: owned_def)
  moreover from nw [rule_format, of 5 8 12288 8] a
  have "\<exists>st''. ers_new 8 8 5 12288 st' = Inr (12288, st'') \<and> registered st'' = [12288] \<and>
         objs st'' 12288 = Some \<lparr>reuse = NULL, blocks_ptr = NULL, blocks = [], free = 0,
              num = 0, max_ers = 0, destroy = 1, size_ers = 8\<rparr>"
    by auto
  ultimately show ?thesis
    using w d n reg by blast
qed

subsection \<open>The report changes nothing\<close>

text \<open>
  C9: in every well-formed state \<^verbatim>\<open>ers_report\<close> returns, and the state after it is the
  state before it. Whenever the report returns, in any state, every component of the
  state (the managers with all their fields, the links of the entries, the allocations,
  the root array and the number of managers) is what it was.
\<close>

theorem report_leaves_state:
  assumes "wf_state st"
  shows "(\<exists>r. ers_report st = Inr (r, st) \<and> root_entry_managers r = ers_num st \<and>
      length (managers r) = unat (ers_num st)) \<and>
    (\<forall>r st'. ers_report st = Inr (r, st') \<longrightarrow>
      objs st' = objs st \<and> ll_next st' = ll_next st \<and> allocated st' = allocated st \<and>
      ers_root st' = ers_root st \<and> ers_num st' = ers_num st)"
proof -
  from assms have len: "length (ers_root st) = unat ERS_ROOT_SIZE" and le: "ers_num st \<le> ERS_ROOT_SIZE"
    and invs: "\<forall>q \<in> set (registered st). \<exists>obj. objs st q = Some obj \<and> ers_inv obj"
    by (simp_all add: wf_state_def)
  from le len have nl: "unat (ers_num st) \<le> length (ers_root st)"
    by (simp add: word_le_nat_alt)
  then have lr: "length (registered st) = unat (ers_num st)"
    by (simp add: registered_def)
  have "\<forall>j. 0 \<le> j \<and> j < unat (ers_num st) \<longrightarrow> (\<exists>obj. objs st (ers_root st ! j) = Some obj)"
  proof (intro allI impI)
    fix j assume j: "0 \<le> j \<and> j < unat (ers_num st)"
    then have "j < length (registered st)" using lr by simp
    then have "registered st ! j \<in> set (registered st)" by (rule nth_mem)
    moreover have "registered st ! j = ers_root st ! j"
      using j by (simp add: registered_def)
    ultimately have "ers_root st ! j \<in> set (registered st)" by simp
    with invs show "\<exists>obj. objs st (ers_root st ! j) = Some obj" by blast
  qed
  from report_managers_total [OF nl this] obtain rs where
    rs: "report_managers 0 st = Inr rs" "length rs = unat (ers_num st)"
    by auto
  have 1: "\<exists>r. ers_report st = Inr (r, st) \<and> root_entry_managers r = ers_num st \<and>
      length (managers r) = unat (ers_num st)"
    using rs by (simp add: ers_report_def)
  have 2: "\<forall>r st'. ers_report st = Inr (r, st') \<longrightarrow>
      objs st' = objs st \<and> ll_next st' = ll_next st \<and> allocated st' = allocated st \<and>
      ers_root st' = ers_root st \<and> ers_num st' = ers_num st"
    by (auto simp: ers_report_def split: sum.splits)
  from 1 2 show ?thesis by blast
qed

text \<open>The report of the small run after its first allocation.\<close>

theorem report_leaves_state_witness:
  "wf_state example_block \<and>
   ers_report example_block =
     Inr (\<lparr>root_array_size = 256, root_entry_managers = 1, entries_per_block = 4096,
           managers = [\<lparr>instances = 1, entry_size = 8, block_array_size = 3,
             allocated_blocks = 1, entries_used = 1, unused_entries = 4095,
             reusable_entries = 0, extra_entries = 0\<rparr>]\<rparr>, example_block)"
proof -
  have w: "wf_state example_block"
    using reachable_example_block by (rule reachable_wf)
  from report_leaves_state [OF w] obtain r where
    r: "ers_report example_block = Inr (r, example_block)"
    by blast
  have o: "objs example_block 4096 =
      Some \<lparr>reuse = NULL, blocks_ptr = 8192, blocks = [65536, NULL, NULL], free = 4095,
        num = 1, max_ers = 3, destroy = 1, size_ers = 8\<rparr>"
    by (simp add: example_block_def)
  have rt: "ers_root example_block ! 0 = 4096" "ers_num example_block = 1"
    "length (ers_root example_block) = 256" "ll_next example_block = (\<lambda>_. NULL)"
    by (simp_all add: example_block_def)
  have m: "report_managers 0 example_block =
      Inr [\<lparr>instances = 1, entry_size = 8, block_array_size = 3,
             allocated_blocks = 1, entries_used = 1, unused_entries = 4095,
             reusable_entries = 0, extra_entries = 0\<rparr>]"
    by (simp add: report_managers.simps rt o report_manager_def report_count.simps
        report_consume.simps count_extra.simps ERS_BLOCK_ENTRIES_def UINT32_MAX_def)
  have "r = \<lparr>root_array_size = 256, root_entry_managers = 1, entries_per_block = 4096,
           managers = [\<lparr>instances = 1, entry_size = 8, block_array_size = 3,
             allocated_blocks = 1, entries_used = 1, unused_entries = 4095,
             reusable_entries = 0, extra_entries = 0\<rparr>]\<rparr>"
    using r by (simp add: ers_report_def m rt ERS_ROOT_SIZE_def ERS_BLOCK_ENTRIES_def)
  with w r show ?thesis by simp
qed

subsection \<open>The size of the entries\<close>

text \<open>
  C6 does not hold for every size: with an alignment of 8 bytes and links of 8 bytes,
  the request for 4294967295 bytes should give entries of 4294967296 bytes, the next
  multiple of 8; the 32-bit addition of line 394 wraps, \<^verbatim>\<open>ers_new\<close> creates a manager
  for entries of 0 bytes, and \<^verbatim>\<open>entry_size\<close> returns 0. (Where the rounded size fits in
  32 bits, the size is the one C6 states: lemma \<open>ers_new_entry_size_spec\<close>.)
\<close>

theorem entry_size_wraps:
  "aligned_size 8 8 4294967295 = 0 \<and>
   spec_entry_size 8 8 4294967295 = 4294967296 \<and>
   (\<exists>st'. ers_new 8 8 4294967295 4096 ers_initial = Inr (4096, st') \<and>
      ers_obj_entry_size 4096 st' = Inr 0)"
  by (simp add: aligned_size_def spec_entry_size_def ers_new_def ers_new_lookup.simps
      ers_initial_def ERS_ROOT_SIZE_def ers_obj_entry_size_def)

end
